theory Spec2Isabelle
  imports Main "HOL-Library.Char_ord" "HOL-Library.List_Lexorder" "HOL-Library.Multiset"
    "HOL-Library.Word"
begin

unbundle bit_operations_syntax

section \<open>Go strings and the path functions the generator calls\<close>

text \<open>
  A Go string is a sequence of bytes, here a \<open>string\<close> (a list of 8-bit characters);
  Go's \<open><\<close> on strings is the bytewise lexicographic order, which is the order of
  \<open>HOL-Library.List_Lexorder\<close> over \<open>HOL-Library.Char_ord\<close>.
  The path separator is the one of Unix, \<open>/\<close>.
\<close>

definition sep :: char where
  "sep = CHR ''/''"

text \<open>\<^verbatim>\<open>strings.HasPrefix\<close>, \<^verbatim>\<open>strings.HasSuffix\<close>, \<^verbatim>\<open>strings.TrimPrefix\<close>, \<^verbatim>\<open>strings.TrimSuffix\<close>.\<close>

definition hasPrefix :: "string \<Rightarrow> string \<Rightarrow> bool" where
  "hasPrefix s p = (take (length p) s = p)"

definition hasSuffix :: "string \<Rightarrow> string \<Rightarrow> bool" where
  "hasSuffix s x = (length x \<le> length s \<and> drop (length s - length x) s = x)"

definition trimPrefix :: "string \<Rightarrow> string \<Rightarrow> string" where
  "trimPrefix s p = (if hasPrefix s p then drop (length p) s else s)"

definition trimSuffix :: "string \<Rightarrow> string \<Rightarrow> string" where
  "trimSuffix s x = (if hasSuffix s x then take (length s - length x) s else s)"

text \<open>
  \<^verbatim>\<open>strings.ToLower\<close>. An ASCII letter is put into lower case. Two runes outside ASCII
  have an ASCII letter as their lower case in Go: U+0130, the bytes \<open>C4 B0\<close>, gives \<open>i\<close>,
  and U+212A, the bytes \<open>E2 84 AA\<close>, gives \<open>k\<close>. The bytes \<open>C4\<close> and \<open>E2\<close> only begin a rune,
  so the two sequences are found bytewise. Every other byte from 128 on is kept: Go maps
  the other runes outside ASCII to runes outside ASCII, and a byte that is no rune to
  U+FFFD, so the result is the same as far as it is compared with the ASCII strings of
  the extension tables, and the source uses it only after such a test.
\<close>

definition lowerChar :: "char \<Rightarrow> char" where
  "lowerChar c = (if CHR ''A'' \<le> c \<and> c \<le> CHR ''Z'' then char_of (of_char c + (32::nat)) else c)"

fun toLower :: "string \<Rightarrow> string" where
  "toLower [] = []"
| "toLower [c] = [lowerChar c]"
| "toLower [c, d] =
     (if c = CHR 0xC4 \<and> d = CHR 0xB0 then ''i'' else lowerChar c # toLower [d])"
| "toLower (c # d # e # cs) =
     (if c = CHR 0xE2 \<and> d = CHR 0x84 \<and> e = CHR 0xAA then CHR ''k'' # toLower cs
      else if c = CHR 0xC4 \<and> d = CHR 0xB0 then CHR ''i'' # toLower (e # cs)
      else lowerChar c # toLower (d # e # cs))"

text \<open>
  \<^verbatim>\<open>filepath.Ext\<close>: the suffix that starts at the last dot of the last element of the
  path, empty when that element has no dot. The source scans from the end and stops at a
  separator.
\<close>

fun extScan :: "string \<Rightarrow> string \<Rightarrow> string" where
  "extScan [] acc = []"
| "extScan (c # cs) acc =
     (if c = sep then []
      else if c = CHR ''.'' then c # acc
      else extScan cs (c # acc))"

definition filepath_Ext :: "string \<Rightarrow> string" where
  "filepath_Ext p = extScan (rev p) []"

text \<open>
  \<^verbatim>\<open>strings.ReplaceAll(s, string(filepath.Separator), "_")\<close>: both strings are one byte
  long, so the replacement is bytewise.
\<close>

definition replaceSep :: "string \<Rightarrow> string" where
  "replaceSep s = map (\<lambda>c. if c = sep then CHR ''_'' else c) s"

text \<open>\<^verbatim>\<open>strings.Split(s, string(filepath.Separator))\<close>; the result is never empty.\<close>

fun splitSep :: "string \<Rightarrow> string list" where
  "splitSep [] = [[]]"
| "splitSep (c # cs) =
     (if c = sep then [] # splitSep cs
      else (case splitSep cs of
              [] \<Rightarrow> [[c]]
            | p # ps \<Rightarrow> (c # p) # ps))"

text \<open>
  The relative path of an entry below the scan root, from the names on the way to it:
  \<^verbatim>\<open>filepath.Walk\<close> builds the path of a child with \<^verbatim>\<open>filepath.Join\<close>, and
  \<^verbatim>\<open>filepath.Rel(rootDir, path)\<close> gives back the names joined with the separator.
  \<^verbatim>\<open>filepath.Rel\<close> returns an error only when one path is absolute and the other is
  not, which cannot happen for a path built from the root.
\<close>

fun joinPath :: "string list \<Rightarrow> string" where
  "joinPath [] = ''.''"
| "joinPath [n] = n"
| "joinPath (n # ns) = n @ sep # joinPath ns"

text \<open>
  \<^verbatim>\<open>filepath.Dir\<close> for the relative paths the scan produces (names joined with single
  separators, no leading or trailing separator): all but the last element, and \<open>.\<close> when
  there is one element only. The cleaning of the path that Go does besides is the
  identity on these paths.
\<close>

definition filepath_Dir :: "string \<Rightarrow> string" where
  "filepath_Dir p =
     (if sep \<in> set p then rev (tl (dropWhile (\<lambda>c. c \<noteq> sep) (rev p))) else ''.'')"

text \<open>\<^verbatim>\<open>filepath.Base\<close> for the same paths: the last element.\<close>

definition filepath_Base :: "string \<Rightarrow> string" where
  "filepath_Base p = (if p = [] then ''.'' else rev (takeWhile (\<lambda>c. c \<noteq> sep) (rev p)))"

text \<open>
  The name \<^verbatim>\<open>os.Lstat\<close> reports for the path it was given (\<^verbatim>\<open>basename\<close> in package
  \<^verbatim>\<open>os\<close>): trailing separators are removed, except from a path that is a separator
  only, then the leading directories.
\<close>

fun stripSepsRev :: "string \<Rightarrow> string" where
  "stripSepsRev [] = []"
| "stripSepsRev [c] = [c]"
| "stripSepsRev (c # d # cs) = (if c = sep then stripSepsRev (d # cs) else c # d # cs)"

definition os_basename :: "string \<Rightarrow> string" where
  "os_basename name =
     (case stripSepsRev (rev name) of
        [] \<Rightarrow> []
      | c # cs \<Rightarrow> rev (c # takeWhile (\<lambda>x. x \<noteq> sep) cs))"

section \<open>The file system\<close>

text \<open>
  The tree below the scan root. An entry is a regular file, a directory with its
  entries by name, or a directory that cannot be read (\<^verbatim>\<open>filepath.Walk\<close> then hands the
  error of reading it to the callback); of such a directory the tree says only whether it
  is empty. Symbolic links and permissions of single files
  are not modelled. A path below the root is the list of the names on the way.
\<close>

datatype node = File | Dir "(string \<times> node) list" | Unreadable bool

fun isDir :: "node \<Rightarrow> bool" where
  "isDir File = False"
| "isDir (Dir es) = True"
| "isDir (Unreadable em) = True"

text \<open>\<^verbatim>\<open>os.Stat\<close>: the entry at a path, \<open>None\<close> when the call returns an error.\<close>

fun os_Stat :: "node \<Rightarrow> string list \<Rightarrow> node option" where
  "os_Stat nd [] = Some nd"
| "os_Stat (Dir es) (n # ns) =
     (case map_of es n of None \<Rightarrow> None | Some c \<Rightarrow> os_Stat c ns)"
| "os_Stat File (n # ns) = None"
| "os_Stat (Unreadable em) (n # ns) = None"

text \<open>
  A well-formed tree: the names of a directory are distinct, not empty, not \<open>.\<close> or
  \<open>..\<close>, and have no separator in them.
\<close>

definition validName :: "string \<Rightarrow> bool" where
  "validName n = (n \<noteq> [] \<and> n \<noteq> ''.'' \<and> n \<noteq> ''..'' \<and> sep \<notin> set n)"

fun wf_node :: "node \<Rightarrow> bool" where
  "wf_node File = True"
| "wf_node (Unreadable em) = True"
| "wf_node (Dir es) =
     (distinct (map fst es) \<and> list_all (\<lambda>e. validName (fst e) \<and> wf_node (snd e)) es)"

datatype error =
    ReadDirError "string list"
  | ParseIndexTemplateError
  | ParsePlayerTemplateError
  | ScanError error
  | NoVideosFound string
  | IndexPagesError error
  | PlayerPagesError error
  | ExecuteError
  | WriteFileError string
  | RemoveError string
  | FfmpegNotFound
  | GpuCheckError
  | ErrBadPattern

section \<open>\<^verbatim>\<open>filepath.Walk\<close>\<close>

text \<open>
  What the callback returns: \<^verbatim>\<open>nil\<close>, \<^verbatim>\<open>filepath.SkipDir\<close> or another error. The
  callback changes the state it closes over, so the walk returns the state together with
  the result.
\<close>

datatype walkres = Continue | SkipDir | Err error

type_synonym 's walkfn = "string list \<Rightarrow> string \<Rightarrow> bool \<Rightarrow> error option \<Rightarrow> 's \<Rightarrow> 's \<times> walkres"

text \<open>
  \<^verbatim>\<open>walk\<close> of package \<^verbatim>\<open>path/filepath\<close>: the callback is called on the entry; a
  directory is then read, its names sorted, and each child walked in that order. A child
  directory whose walk returns \<^verbatim>\<open>SkipDir\<close> is skipped; every other error, and
  \<^verbatim>\<open>SkipDir\<close> from a file, ends the walk of the directory with that error.
  The callback gets the path (as the names below the root), the name and kind of the
  entry that \<^verbatim>\<open>Lstat\<close> reports, and the error of reading the directory.
\<close>

function walk :: "'s walkfn \<Rightarrow> string list \<Rightarrow> string \<Rightarrow> node \<Rightarrow> 's \<Rightarrow> 's \<times> walkres"
  and walkNames :: "'s walkfn \<Rightarrow> string list \<Rightarrow> (string \<times> node) list \<Rightarrow> 's \<Rightarrow> 's \<times> walkres"
where
  "walk fn path name File st = fn path name False None st"
| "walk fn path name (Unreadable em) st = fn path name True (Some (ReadDirError path)) st"
| "walk fn path name (Dir es) st =
     (case fn path name True None st of
        (st', Continue) \<Rightarrow> walkNames fn path (sort_key fst es) st'
      | (st', r) \<Rightarrow> (st', r))"
| "walkNames fn path [] st = (st, Continue)"
| "walkNames fn path ((n, nd) # rest) st =
     (case walk fn (path @ [n]) n nd st of
        (st', Continue) \<Rightarrow> walkNames fn path rest st'
      | (st', SkipDir) \<Rightarrow> (if isDir nd then walkNames fn path rest st' else (st', SkipDir))
      | (st', Err e) \<Rightarrow> (st', Err e))"
  by pat_completeness auto
termination
proof -
  have perm: "size_list f (sort_key fst es) = size_list f es"
    for f :: "string \<times> node \<Rightarrow> nat" and es
  proof -
    have "size_list f xs = sum_mset (image_mset f (mset xs)) + length xs"
      for xs :: "(string \<times> node) list"
      by (induction xs) auto
    then show ?thesis by (metis mset_sort length_sort)
  qed
  show ?thesis
    by (relation "measure (\<lambda>x. case x of
          Inl (fn, path, name, nd, st) \<Rightarrow> 2 * size nd
        | Inr (fn, path, es, st) \<Rightarrow> 2 * size_list (size_prod (\<lambda>_. 0) size) es + 1)")
       (auto simp: perm)
qed

text \<open>
  \<^verbatim>\<open>filepath.Walk(root, fn)\<close>: the root is walked under the name \<^verbatim>\<open>Lstat\<close> reports
  for it; \<^verbatim>\<open>SkipDir\<close> at the top is no error.
\<close>

definition filepath_Walk :: "'s walkfn \<Rightarrow> string \<Rightarrow> node \<Rightarrow> 's \<Rightarrow> 's \<times> error option" where
  "filepath_Walk fn rootDir root st =
     (case walk fn [] (os_basename rootDir) root st of
        (st', Continue) \<Rightarrow> (st', None)
      | (st', SkipDir) \<Rightarrow> (st', None)
      | (st', Err e) \<Rightarrow> (st', Some e))"

section \<open>The generator: data\<close>

text \<open>The two extension tables of the source.\<close>

definition videoExtensions :: "string \<Rightarrow> bool" where
  "videoExtensions ext =
     (ext \<in> set [''.mp4'', ''.webm'', ''.mkv'', ''.avi'', ''.mov'', ''.m4v'', ''.ogv'', ''.3gp''])"

definition needsConversion :: "string \<Rightarrow> bool" where
  "needsConversion ext = (ext \<in> set [''.mkv'', ''.avi'', ''.mov'', ''.wmv'', ''.flv''])"

record Video =
  Name :: string
  FileName :: string
  RelativePath :: string
  Extension :: string
  Directory :: string
  PlayerPage :: string

text \<open>
  The state of a \<^verbatim>\<open>Generator\<close> that the properties below are about. The map \<^verbatim>\<open>dirTree\<close> is an
  association list with one pair for each key, in the order the keys were first used.
\<close>

record Generator =
  rootDir :: string
  outputDir :: string
  customTitle :: string
  videos :: "Video list"
  dirTree :: "(string \<times> Video list) list"

definition New :: "string \<Rightarrow> Generator" where
  "New dir = \<lparr> rootDir = dir, outputDir = dir, customTitle = ''Videos'', videos = [], dirTree = [] \<rparr>"

definition SetTitle :: "string \<Rightarrow> Generator \<Rightarrow> Generator" where
  "SetTitle title g = g\<lparr> customTitle := title \<rparr>"

text \<open>
  Reading a key of a Go map gives the zero value (here the \<^verbatim>\<open>nil\<close> slice) for a key
  that is not there, and does not add the key.
\<close>

definition dirTree_get :: "(string \<times> Video list) list \<Rightarrow> string \<Rightarrow> Video list" where
  "dirTree_get m k = (case map_of m k of None \<Rightarrow> [] | Some vs \<Rightarrow> vs)"

text \<open>\<^verbatim>\<open>m[k] = v\<close>: an old pair keeps its place, a new key is added.\<close>

fun dirTree_put :: "(string \<times> Video list) list \<Rightarrow> string \<Rightarrow> Video list \<Rightarrow> (string \<times> Video list) list" where
  "dirTree_put [] k v = [(k, v)]"
| "dirTree_put ((k', v') # m) k v = (if k' = k then (k, v) # m else (k', v') # dirTree_put m k v)"

section \<open>File names of the pages\<close>

text \<open>\<^verbatim>\<open>sanitizeFileName\<close>: the loop over the runes of the name.
  A rune outside ASCII is a sequence of bytes from 128 on, none of which is kept, so the
  loop over the bytes gives the same string.\<close>

fun sanitizeFileName :: "string \<Rightarrow> string" where
  "sanitizeFileName [] = []"
| "sanitizeFileName (r # rs) =
     (if (CHR ''a'' \<le> r \<and> r \<le> CHR ''z'') \<or> (CHR ''A'' \<le> r \<and> r \<le> CHR ''Z'')
         \<or> (CHR ''0'' \<le> r \<and> r \<le> CHR ''9'') \<or> r = CHR ''_'' \<or> r = CHR ''-''
      then r # sanitizeFileName rs
      else if r = CHR '' '' then CHR ''_'' # sanitizeFileName rs
      else sanitizeFileName rs)"

definition generatePlayerFileName :: "string \<Rightarrow> string" where
  "generatePlayerFileName relPath =
     (let name = replaceSep relPath;
          name = trimSuffix name (filepath_Ext name)
      in ''player_'' @ sanitizeFileName name @ ''.html'')"

section \<open>The scan\<close>

text \<open>
  The path whose existence the scan and the conversion pass test:
  \<^verbatim>\<open>strings.TrimSuffix(path, ext) + ".mp4"\<close>. The extension is at most as long as the
  last name of the path, so the suffix is cut from that name.
\<close>

definition mp4PathOf :: "string list \<Rightarrow> string \<Rightarrow> string list" where
  "mp4PathOf path ext =
     (case rev path of
        [] \<Rightarrow> []
      | n # up \<Rightarrow> rev up @ [trimSuffix n ext @ ''.mp4''])"

text \<open>
  The callback of \<^verbatim>\<open>scanVideos\<close>. The extension is taken from the last name of the
  path, which is the name of the entry.
\<close>

definition scanVideos_fn :: "node \<Rightarrow> Generator walkfn" where
  "scanVideos_fn root path name dir err g =
     (case err of
        Some e \<Rightarrow> (g, Err e)
      | None \<Rightarrow>
          if dir \<and> hasPrefix name ''.'' then (g, SkipDir)
          else if dir then (g, Continue)
          else
            let ext = toLower (filepath_Ext name) in
            if \<not> videoExtensions ext then (g, Continue)
            else if needsConversion ext \<and> os_Stat root (mp4PathOf path ext) \<noteq> None
            then (g, Continue)
            else
              let relPath = joinPath path;
                  d = filepath_Dir relPath;
                  d = (if d = ''.'' then [] else d);
                  video = \<lparr> Name = trimSuffix name ext,
                            FileName = name,
                            RelativePath = relPath,
                            Extension = ext,
                            Directory = d,
                            PlayerPage = generatePlayerFileName relPath \<rparr>
              in (g\<lparr> videos := videos g @ [video],
                     dirTree := dirTree_put (dirTree g) d (dirTree_get (dirTree g) d @ [video]) \<rparr>,
                  Continue))"

definition scanVideos :: "node \<Rightarrow> Generator \<Rightarrow> Generator \<times> error option" where
  "scanVideos root g = filepath_Walk (scanVideos_fn root) (rootDir g) root g"

section \<open>The pages\<close>

record DirEntry =
  Name_d :: string
  Path_d :: string

record IndexData =
  Title :: string
  CurrentPath :: string
  ParentPath :: string
  HasParent :: bool
  Directories :: "DirEntry list"
  Videos :: "Video list"

record PlayerData =
  Title_p :: string
  VideoSrc :: string
  VideoType :: string
  BackLink :: string
  VideoName :: string
  PrevVideo :: string
  NextVideo :: string
  HasPrev :: bool
  HasNext :: bool

text \<open>
  A page is written as the record its template is executed on: the templates are not part
  of the model. A written file is its name in the output directory with its page.
\<close>

datatype page = IndexHtml IndexData | PlayerHtml PlayerData

type_synonym written = "(string \<times> page) list"

text \<open>
  What the generator takes from outside: whether the two embedded templates parse,
  whether a template executes on a record, whether \<^verbatim>\<open>os.WriteFile\<close> succeeds on a name,
  \<^verbatim>\<open>url.PathEscape\<close>, the order in which \<^verbatim>\<open>range\<close> goes through the keys of a map
  (Go leaves it open), and \<^verbatim>\<open>sort.Slice\<close> on the two slices the source sorts, given
  the \<^verbatim>\<open>less\<close> function (Go documents that it sorts, and that it need not be stable).
\<close>

record Env =
  parseIndexOk :: bool
  parsePlayerOk :: bool
  executeIndexOk :: "IndexData \<Rightarrow> bool"
  executePlayerOk :: "PlayerData \<Rightarrow> bool"
  writeFileOk :: "string \<Rightarrow> bool"
  pathEscape :: "string \<Rightarrow> string"
  rangeOrder :: "string list \<Rightarrow> string list"
  sortSlice_d :: "(DirEntry \<Rightarrow> DirEntry \<Rightarrow> bool) \<Rightarrow> DirEntry list \<Rightarrow> DirEntry list"
  sortSlice_v :: "(Video \<Rightarrow> Video \<Rightarrow> bool) \<Rightarrow> Video list \<Rightarrow> Video list"

text \<open>The contract of \<^verbatim>\<open>sort.Slice\<close> and of \<^verbatim>\<open>range\<close> over a map.\<close>

definition sortsBy :: "('a \<Rightarrow> 'a \<Rightarrow> bool) \<Rightarrow> ('a list \<Rightarrow> 'a list) \<Rightarrow> bool" where
  "sortsBy lt srt =
     (\<forall>xs. mset (srt xs) = mset xs \<and> sorted_wrt (\<lambda>a b. \<not> lt b a) (srt xs))"

definition wf_env :: "Env \<Rightarrow> bool" where
  "wf_env env =
     ((\<forall>ks. mset (rangeOrder env ks) = mset ks)
      \<and> sortsBy (\<lambda>a b. Name_d a < Name_d b) (sortSlice_d env (\<lambda>a b. Name_d a < Name_d b))
      \<and> sortsBy (\<lambda>a b. Name a < Name b) (sortSlice_v env (\<lambda>a b. Name a < Name b)))"

text \<open>A loop that returns at the first error.\<close>

fun forEach :: "('a \<Rightarrow> 's \<Rightarrow> 's \<times> error option) \<Rightarrow> 'a list \<Rightarrow> 's \<Rightarrow> 's \<times> error option" where
  "forEach f [] st = (st, None)"
| "forEach f (x # xs) st =
     (case f x st of
        (st', None) \<Rightarrow> forEach f xs st'
      | (st', Some e) \<Rightarrow> (st', Some e))"

subsection \<open>Index pages\<close>

text \<open>The first loop of \<^verbatim>\<open>generateIndexPage\<close>: one key \<open>d\<close> of \<^verbatim>\<open>dirTree\<close>, and the
  set \<^verbatim>\<open>subDirs\<close> as a list without repetition.\<close>

definition subDirs_step :: "string \<Rightarrow> string \<Rightarrow> string list \<Rightarrow> string list" where
  "subDirs_step dir d subDirs =
     (if d = dir then subDirs
      else if dir = [] then
        (case splitSep d of [] \<Rightarrow> subDirs | p # ps \<Rightarrow> List.insert p subDirs)
      else if hasPrefix d (dir @ [sep]) then
        (case splitSep (trimPrefix d (dir @ [sep])) of
           [] \<Rightarrow> subDirs
         | p # ps \<Rightarrow> List.insert p subDirs)
      else subDirs)"

definition dirEntryOf :: "string \<Rightarrow> string \<Rightarrow> DirEntry" where
  "dirEntryOf dir subDir =
     (let path = (if dir \<noteq> [] then dir @ [sep] @ subDir else subDir)
      in \<lparr> Name_d = subDir, Path_d = replaceSep path @ ''_index.html'' \<rparr>)"

text \<open>
  \<^verbatim>\<open>sort.Slice\<close> sorts the slice \<^verbatim>\<open>g.dirTree[dir]\<close> in place: the map then holds the
  sorted slice. For a key that is not in the map the slice is \<^verbatim>\<open>nil\<close> and the map
  stays as it is.
\<close>

definition dirTree_sorted :: "(string \<times> Video list) list \<Rightarrow> string \<Rightarrow> Video list \<Rightarrow> (string \<times> Video list) list" where
  "dirTree_sorted m dir vs = map (\<lambda>(k, v). if k = dir then (k, vs) else (k, v)) m"

definition indexFileName :: "string \<Rightarrow> string" where
  "indexFileName dir = (if dir \<noteq> [] then replaceSep dir @ ''_index.html'' else ''index.html'')"

text \<open>The record \<^verbatim>\<open>data\<close> of \<^verbatim>\<open>generateIndexPage\<close>, from the state before the call.\<close>

definition indexDataOf :: "Env \<Rightarrow> Generator \<Rightarrow> string \<Rightarrow> IndexData" where
  "indexDataOf env g dir =
     (let subDirs = fold (subDirs_step dir) (rangeOrder env (map fst (dirTree g))) [];
          directories = sortSlice_d env (\<lambda>a b. Name_d a < Name_d b)
                          (map (dirEntryOf dir) (rangeOrder env subDirs));
          vs = sortSlice_v env (\<lambda>a b. Name a < Name b) (dirTree_get (dirTree g) dir);
          hasParent = (dir \<noteq> []);
          parentPath =
            (if hasParent then
               (let parent = filepath_Dir dir
                in if parent = ''.'' then ''index.html''
                   else replaceSep parent @ ''_index.html'')
             else []);
          title = (if dir \<noteq> [] then filepath_Base dir else customTitle g)
      in \<lparr> Title = title, CurrentPath = dir, ParentPath = parentPath,
           HasParent = hasParent, Directories = directories, Videos = vs \<rparr>)"

definition generateIndexPage :: "Env \<Rightarrow> string \<Rightarrow> Generator \<times> written \<Rightarrow> (Generator \<times> written) \<times> error option" where
  "generateIndexPage env dir st =
     (case st of (g, out) \<Rightarrow>
      let data = indexDataOf env g dir;
          g' = g\<lparr> dirTree := dirTree_sorted (dirTree g) dir (Videos data) \<rparr>
      in if \<not> executeIndexOk env data then ((g', out), Some ExecuteError)
         else
           let fileName = indexFileName dir
           in if writeFileOk env fileName
              then ((g', out @ [(fileName, IndexHtml data)]), None)
              else ((g', out), Some (WriteFileError fileName)))"

text \<open>The inner loop of \<^verbatim>\<open>generateIndexPages\<close>: a directory and the directories above it
  are put into the set \<^verbatim>\<open>dirs\<close>.\<close>

function addAncestors :: "string \<Rightarrow> string list \<Rightarrow> string list" where
  "addAncestors dir dirs =
     (if dir = [] then dirs
      else addAncestors (let d = filepath_Dir dir in if d = ''.'' then [] else d)
             (List.insert dir dirs))"
  by pat_completeness auto
termination
proof (relation "measure (\<lambda>(dir, dirs). length dir)")
  show "wf (measure (\<lambda>(dir, dirs). length dir))" by simp
next
  fix dir :: string and dirs :: "string list"
  assume ne: "dir \<noteq> []"
  have "length (rev (tl (dropWhile (\<lambda>c. c \<noteq> sep) (rev dir)))) < length dir" if "sep \<in> set dir"
  proof -
    have "dropWhile (\<lambda>c. c \<noteq> sep) (rev dir) \<noteq> []" using that by simp
    then have "length (tl (dropWhile (\<lambda>c. c \<noteq> sep) (rev dir))) < length (dropWhile (\<lambda>c. c \<noteq> sep) (rev dir))"
      by (cases "dropWhile (\<lambda>c. c \<noteq> sep) (rev dir)") auto
    also have "\<dots> \<le> length (rev dir)" by (rule length_dropWhile_le)
    finally show ?thesis by simp
  qed
  then show "((let d = filepath_Dir dir in if d = ''.'' then [] else d, List.insert dir dirs), (dir, dirs))
     \<in> measure (\<lambda>(dir, dirs). length dir)"
    using ne by (auto simp: filepath_Dir_def Let_def)
qed

declare addAncestors.simps [simp del]

definition collectDirs :: "Video list \<Rightarrow> string list" where
  "collectDirs vs = fold (\<lambda>video dirs. addAncestors (Directory video) dirs) vs [[]]"

definition generateIndexPages :: "Env \<Rightarrow> Generator \<times> written \<Rightarrow> (Generator \<times> written) \<times> error option" where
  "generateIndexPages env st =
     forEach (generateIndexPage env) (rangeOrder env (collectDirs (videos (fst st)))) st"

subsection \<open>Player pages\<close>

definition mimeTypes :: "string \<Rightarrow> string" where
  "mimeTypes ext =
     (case map_of [(''.mp4'', ''video/mp4''), (''.webm'', ''video/webm''),
                   (''.mkv'', ''video/x-matroska''), (''.avi'', ''video/x-msvideo''),
                   (''.mov'', ''video/quicktime''), (''.m4v'', ''video/x-m4v''),
                   (''.ogv'', ''video/ogg''), (''.3gp'', ''video/3gpp'')] ext of
        None \<Rightarrow> [] | Some t \<Rightarrow> t)"

text \<open>\<^verbatim>\<open>strings.Join(parts, "/")\<close>.\<close>

fun joinSlash :: "string list \<Rightarrow> string" where
  "joinSlash [] = []"
| "joinSlash [p] = p"
| "joinSlash (p # ps) = p @ CHR ''/'' # joinSlash ps"

text \<open>The index of the first element a predicate holds of: the loop that ends with
  \<^verbatim>\<open>break\<close>.\<close>

fun findFirst :: "('a \<Rightarrow> bool) \<Rightarrow> 'a list \<Rightarrow> nat option" where
  "findFirst P [] = None"
| "findFirst P (x # xs) =
     (if P x then Some 0 else (case findFirst P xs of None \<Rightarrow> None | Some j \<Rightarrow> Some (Suc j)))"

text \<open>The record \<^verbatim>\<open>data\<close> of \<^verbatim>\<open>generatePlayerPage\<close>.\<close>

definition playerDataOf :: "Env \<Rightarrow> Generator \<Rightarrow> Video \<Rightarrow> PlayerData" where
  "playerDataOf env g video =
     (let videoSrc = joinSlash (map (pathEscape env) (splitSep (RelativePath video)));
          backLink = (if Directory video \<noteq> [] then replaceSep (Directory video) @ ''_index.html''
                      else ''index.html'');
          dirVideos = dirTree_get (dirTree g) (Directory video);
          nav = (case findFirst (\<lambda>v. RelativePath v = RelativePath video) dirVideos of
                   None \<Rightarrow> ([], [], False, False)
                 | Some j \<Rightarrow>
                     ((if j > 0 then PlayerPage (dirVideos ! (j - 1)) else []),
                      (if j < length dirVideos - 1 then PlayerPage (dirVideos ! (j + 1)) else []),
                      j > 0, j < length dirVideos - 1))
      in (case nav of (prevVideo, nextVideo, hasPrev, hasNext) \<Rightarrow>
            \<lparr> Title_p = Name video, VideoSrc = videoSrc,
              VideoType = mimeTypes (Extension video), BackLink = backLink,
              VideoName = FileName video, PrevVideo = prevVideo, NextVideo = nextVideo,
              HasPrev = hasPrev, HasNext = hasNext \<rparr>))"

definition generatePlayerPage :: "Env \<Rightarrow> Video \<Rightarrow> Generator \<times> written \<Rightarrow> (Generator \<times> written) \<times> error option" where
  "generatePlayerPage env video st =
     (case st of (g, out) \<Rightarrow>
      let data = playerDataOf env g video
      in if \<not> executePlayerOk env data then ((g, out), Some ExecuteError)
         else if writeFileOk env (PlayerPage video)
         then ((g, out @ [(PlayerPage video, PlayerHtml data)]), None)
         else ((g, out), Some (WriteFileError (PlayerPage video))))"

definition generatePlayerPages :: "Env \<Rightarrow> Generator \<times> written \<Rightarrow> (Generator \<times> written) \<times> error option" where
  "generatePlayerPages env st = forEach (generatePlayerPage env) (videos (fst st)) st"

subsection \<open>\<^verbatim>\<open>Generate\<close>\<close>

definition Generate :: "Env \<Rightarrow> node \<Rightarrow> Generator \<Rightarrow> (Generator \<times> written) \<times> error option" where
  "Generate env root g =
     (if \<not> parseIndexOk env then ((g, []), Some ParseIndexTemplateError)
      else if \<not> parsePlayerOk env then ((g, []), Some ParsePlayerTemplateError)
      else
        (case scanVideos root g of
           (g1, Some e) \<Rightarrow> ((g1, []), Some (ScanError e))
         | (g1, None) \<Rightarrow>
             if length (videos g1) = 0 then ((g1, []), Some (NoVideosFound (rootDir g1)))
             else
               (case generateIndexPages env (g1, []) of
                  (st, Some e) \<Rightarrow> (st, Some (IndexPagesError e))
                | (st, None) \<Rightarrow>
                    (case generatePlayerPages env st of
                       (st', Some e) \<Rightarrow> (st', Some (PlayerPagesError e))
                     | (st', None) \<Rightarrow> (st', None)))))"

section \<open>Changes of the file system\<close>

text \<open>
  Writing a regular file at a path (creating it, or writing over a regular file that is
  there). Nothing changes when the directory of the path is missing or the path is a
  directory: the write fails.
\<close>

fun fs_writeFile :: "node \<Rightarrow> string list \<Rightarrow> node" where
  "fs_writeFile (Dir es) [n] =
     (case map_of es n of None \<Rightarrow> Dir (es @ [(n, File)]) | Some c \<Rightarrow> Dir es)"
| "fs_writeFile (Dir es) (n # m # ns) =
     Dir (map (\<lambda>e. if fst e = n then (fst e, fs_writeFile (snd e) (m # ns)) else e) es)"
| "fs_writeFile nd ns = nd"

text \<open>
  \<^verbatim>\<open>os.Remove\<close>: a regular file or an empty directory is removed, whether the directory
  can be read or not; \<open>None\<close> is the error for a missing path and for a directory that is
  not empty.
\<close>

fun removable :: "node \<Rightarrow> bool" where
  "removable File = True"
| "removable (Dir es) = (es = [])"
| "removable (Unreadable em) = em"

fun os_Remove :: "node \<Rightarrow> string list \<Rightarrow> node option" where
  "os_Remove (Dir es) [n] =
     (case map_of es n of
        None \<Rightarrow> None
      | Some c \<Rightarrow> if removable c then Some (Dir (filter (\<lambda>e. fst e \<noteq> n) es)) else None)"
| "os_Remove (Dir es) (n # m # ns) =
     (case map_of es n of
        None \<Rightarrow> None
      | Some c \<Rightarrow>
          (case os_Remove c (m # ns) of
             None \<Rightarrow> None
           | Some c' \<Rightarrow> Some (Dir (map (\<lambda>e. if fst e = n then (fst e, c') else e) es))))"
| "os_Remove nd ns = None"

section \<open>The conversion pass\<close>

text \<open>
  The encoder is a process outside the program. A run of it ends well, with the target
  written, or fails with a cause, having left a partial file at the target or not.
\<close>

datatype outcome = Encoded | Failed string bool

text \<open>
  What \<^verbatim>\<open>ConvertVideos\<close> takes from outside: whether \<^verbatim>\<open>ffmpeg\<close> is on the path, whether
  \<^verbatim>\<open>checkNvidiaGPU\<close> returns without an error, and how a run of the encoder ends, given the
  profile (GPU or CPU), the source, the target and the file system it runs on.
\<close>

record ConvEnv =
  lookPathFfmpeg :: bool
  checkNvidiaGPUOk :: bool
  ffmpeg :: "bool \<Rightarrow> string list \<Rightarrow> string list \<Rightarrow> node \<Rightarrow> outcome"

text \<open>What the pass prints and runs, in order.\<close>

datatype event =
    GpuDetected
  | Searching
  | NoneNeedConversion
  | FoundToConvert nat
  | Converting nat nat string
  | RunFfmpeg bool "string list" "string list"
  | WarningErrorConverting string string
  | Done string
  | ConversionCompleted

text \<open>The callback of the walk in \<^verbatim>\<open>ConvertVideos\<close>; the state is the slice \<^verbatim>\<open>toConvert\<close>.\<close>

definition convert_fn :: "node \<Rightarrow> (string list) list walkfn" where
  "convert_fn root path name dir err toConvert =
     (case err of
        Some e \<Rightarrow> (toConvert, Err e)
      | None \<Rightarrow>
          if dir then (if hasPrefix name ''.'' then (toConvert, SkipDir) else (toConvert, Continue))
          else
            let ext = toLower (filepath_Ext name) in
            if \<not> needsConversion ext then (toConvert, Continue)
            else if os_Stat root (mp4PathOf path ext) \<noteq> None then (toConvert, Continue)
            else (toConvert @ [path], Continue))"

definition tasksOf :: "Generator \<Rightarrow> node \<Rightarrow> (string list) list \<times> error option" where
  "tasksOf g root = filepath_Walk (convert_fn root) (rootDir g) root []"

text \<open>
  The body of the loop over \<^verbatim>\<open>toConvert\<close>, for the task with index \<open>i\<close> of \<open>n\<close>. The
  extension is not put into lower case here. The error of \<^verbatim>\<open>os.Remove\<close> is dropped, as
  in the source.
\<close>

definition convertOne :: "ConvEnv \<Rightarrow> bool \<Rightarrow> nat \<Rightarrow> nat \<Rightarrow> string list \<Rightarrow> node \<times> event list \<Rightarrow> node \<times> event list" where
  "convertOne env useGPU i n videoPath st =
     (case st of (root, log) \<Rightarrow>
      let ext = filepath_Ext (last videoPath);
          mp4Path = mp4PathOf videoPath ext;
          fileName = last videoPath;
          log1 = log @ [Converting (i + 1) n fileName, RunFfmpeg useGPU videoPath mp4Path]
      in (case ffmpeg env useGPU videoPath mp4Path root of
            Encoded \<Rightarrow> (fs_writeFile root mp4Path, log1 @ [Done (last mp4Path)])
          | Failed cause partial \<Rightarrow>
              let root1 = (if partial then fs_writeFile root mp4Path else root);
                  root2 = (case os_Remove root1 mp4Path of None \<Rightarrow> root1 | Some r \<Rightarrow> r)
              in (root2, log1 @ [WarningErrorConverting fileName cause])))"

fun convertLoop :: "ConvEnv \<Rightarrow> bool \<Rightarrow> nat \<Rightarrow> nat \<Rightarrow> (string list) list \<Rightarrow> node \<times> event list \<Rightarrow> node \<times> event list" where
  "convertLoop env useGPU i n [] st = st"
| "convertLoop env useGPU i n (videoPath # rest) st =
     convertLoop env useGPU (i + 1) n rest (convertOne env useGPU i n videoPath st)"

definition ConvertVideos :: "ConvEnv \<Rightarrow> bool \<Rightarrow> Generator \<Rightarrow> node \<Rightarrow> (node \<times> event list) \<times> error option" where
  "ConvertVideos env useGPU g root =
     (if \<not> lookPathFfmpeg env then ((root, []), Some FfmpegNotFound)
      else if useGPU \<and> \<not> checkNvidiaGPUOk env then ((root, []), Some GpuCheckError)
      else
        let log0 = (if useGPU then [GpuDetected] else []) @ [Searching] in
        (case tasksOf g root of
           (toConvert, Some e) \<Rightarrow> ((root, log0), Some e)
         | (toConvert, None) \<Rightarrow>
             if length toConvert = 0 then ((root, log0 @ [NoneNeedConversion]), None)
             else
               (case convertLoop env useGPU 0 (length toConvert) toConvert
                       (root, log0 @ [FoundToConvert (length toConvert)]) of
                  (root', log') \<Rightarrow> ((root', log' @ [ConversionCompleted]), None))))"

section \<open>Removing the generated files\<close>

subsection \<open>Cleaned paths\<close>

text \<open>
  \<^verbatim>\<open>filepath.Clean\<close>: whether the path is rooted, which is to begin with a separator, and
  the elements of the cleaned path. An empty element and \<open>.\<close> are dropped; \<open>..\<close> takes
  away the element before it, is dropped at the root, and is kept at the start of a path
  that is not rooted. \<^verbatim>\<open>filepath.Join\<close> leaves out an empty first element and cleans the
  result. The cleaned path as a string is \<open>pathString\<close>.
\<close>

definition rooted :: "string \<Rightarrow> bool" where
  "rooted path = (path \<noteq> [] \<and> hd path = sep)"

definition cleanStep :: "bool \<Rightarrow> string list \<Rightarrow> string \<Rightarrow> string list" where
  "cleanStep r out e =
     (if e = [] \<or> e = ''.'' then out
      else if e = ''..'' then
        (if out \<noteq> [] \<and> last out \<noteq> ''..'' then butlast out
         else if r then out
         else out @ [''..''])
      else out @ [e])"

definition filepath_Clean :: "string \<Rightarrow> bool \<times> string list" where
  "filepath_Clean path = (rooted path, foldl (cleanStep (rooted path)) [] (splitSep path))"

definition filepath_Join :: "string \<Rightarrow> string \<Rightarrow> bool \<times> string list" where
  "filepath_Join a b = (if a = [] then filepath_Clean b else filepath_Clean (a @ sep # b))"

definition pathString :: "bool \<times> string list \<Rightarrow> string" where
  "pathString p =
     (case p of (r, segs) \<Rightarrow>
        if r then sep # (if segs = [] then [] else joinPath segs) else joinPath segs)"

subsection \<open>\<^verbatim>\<open>filepath.Match\<close>\<close>

text \<open>
  \<^verbatim>\<open>utf8.DecodeRuneInString\<close>: the rune at the head of a string, an integer, and its
  width in bytes. A byte sequence that is no encoding of a rune gives \<^verbatim>\<open>RuneError\<close> and
  the width one, the empty string \<^verbatim>\<open>RuneError\<close> and the width zero.
\<close>

definition RuneError :: int where
  "RuneError = 0xFFFD"

definition DecodeRuneInString :: "string \<Rightarrow> int \<times> nat" where
  "DecodeRuneInString s =
     (case map of_char s of
        [] \<Rightarrow> (RuneError, 0)
      | (s0 :: int) # t \<Rightarrow>
          if s0 < 0x80 then (s0, 1)
          else if s0 < 0xC2 \<or> 0xF4 < s0 then (RuneError, 1)
          else
            let sz = (if s0 < 0xE0 then 2 else if s0 < 0xF0 then 3 else 4 :: nat);
                lo = (if s0 = 0xE0 then 0xA0 else if s0 = 0xF0 then 0x90 else 0x80);
                hi = (if s0 = 0xED then 0x9F else if s0 = 0xF4 then 0x8F else 0xBF)
            in if length s < sz then (RuneError, 1)
               else
                (case t of
                   [] \<Rightarrow> (RuneError, 1)
                 | s1 # t1 \<Rightarrow>
                     if s1 < lo \<or> hi < s1 then (RuneError, 1)
                     else if sz = 2 then (s0 mod 32 * 64 + s1 mod 64, 2)
                     else
                      (case t1 of
                         [] \<Rightarrow> (RuneError, 1)
                       | s2 # t2 \<Rightarrow>
                           if s2 < 0x80 \<or> 0xBF < s2 then (RuneError, 1)
                           else if sz = 3 then (s0 mod 16 * 4096 + s1 mod 64 * 64 + s2 mod 64, 3)
                           else
                            (case t2 of
                               [] \<Rightarrow> (RuneError, 1)
                             | s3 # t3 \<Rightarrow>
                                 if s3 < 0x80 \<or> 0xBF < s3 then (RuneError, 1)
                                 else (s0 mod 8 * 262144 + s1 mod 64 * 4096 + s2 mod 64 * 64
                                        + s3 mod 64, 4)))))"

text \<open>
  \<^verbatim>\<open>scanChunk\<close>: the stars at the head of the pattern are taken off, and the chunk goes
  up to the next star that is not in a bracket; a backslash takes the next byte with it.
\<close>

definition backslash :: char where
  "backslash = CHR 0x5C"

fun scanLoop :: "bool \<Rightarrow> string \<Rightarrow> string \<times> string" where
  "scanLoop inrange [] = ([], [])"
| "scanLoop inrange [c] = (if c = CHR ''*'' \<and> \<not> inrange then ([], [c]) else ([c], []))"
| "scanLoop inrange (c # d # cs) =
     (if c = backslash then (case scanLoop inrange cs of (chunk, rest) \<Rightarrow> (c # d # chunk, rest))
      else if c = CHR ''['' then (case scanLoop True (d # cs) of (chunk, rest) \<Rightarrow> (c # chunk, rest))
      else if c = CHR '']'' then (case scanLoop False (d # cs) of (chunk, rest) \<Rightarrow> (c # chunk, rest))
      else if c = CHR ''*'' \<and> \<not> inrange then ([], c # d # cs)
      else (case scanLoop inrange (d # cs) of (chunk, rest) \<Rightarrow> (c # chunk, rest)))"

definition scanChunk :: "string \<Rightarrow> bool \<times> string \<times> string" where
  "scanChunk pattern =
     (case scanLoop False (dropWhile (\<lambda>c. c = CHR ''*'') pattern) of
        (chunk, rest) \<Rightarrow> (pattern \<noteq> [] \<and> hd pattern = CHR ''*'', chunk, rest))"

text \<open>\<^verbatim>\<open>getEsc\<close>: a character of a class, which may be escaped, and the chunk after it.\<close>

definition getEsc :: "string \<Rightarrow> error + int \<times> string" where
  "getEsc chunk =
     (if chunk = [] \<or> hd chunk = CHR ''-'' \<or> hd chunk = CHR '']'' then Inl ErrBadPattern
      else
        let chunk = (if hd chunk = backslash then tl chunk else chunk) in
        if chunk = [] then Inl ErrBadPattern
        else
          (case DecodeRuneInString chunk of (r, n) \<Rightarrow>
             if r = RuneError \<and> n = 1 then Inl ErrBadPattern
             else if drop n chunk = [] then Inl ErrBadPattern
             else Inr (r, drop n chunk)))"

text \<open>
  The loop over the ranges of a class in \<^verbatim>\<open>matchChunk\<close>, for the rune \<open>r\<close> of the name:
  whether a range held the rune, and the chunk after the closing bracket.
\<close>

function classRanges :: "int \<Rightarrow> bool \<Rightarrow> nat \<Rightarrow> string \<Rightarrow> error + bool \<times> string" where
  "classRanges r match nrange chunk =
     (if chunk \<noteq> [] \<and> hd chunk = CHR '']'' \<and> 0 < nrange then Inr (match, tl chunk)
      else
        (case getEsc chunk of
           Inl e \<Rightarrow> Inl e
         | Inr (lo, chunk1) \<Rightarrow>
             if hd chunk1 = CHR ''-'' then
               (case getEsc (tl chunk1) of
                  Inl e \<Rightarrow> Inl e
                | Inr (hi, chunk2) \<Rightarrow>
                    classRanges r (match \<or> (lo \<le> r \<and> r \<le> hi)) (nrange + 1) chunk2)
             else classRanges r (match \<or> lo = r) (nrange + 1) chunk1))"
  by pat_completeness auto
termination
proof -
  have width: "1 \<le> snd (DecodeRuneInString s)" if "s \<noteq> []" for s
    using that by (cases s) (auto simp: DecodeRuneInString_def Let_def split: list.splits)
  have getEsc_shorter: "length rest < length chunk" if a: "getEsc chunk = Inr (r, rest)" for chunk r rest
  proof -
    let ?c = "if hd chunk = backslash then tl chunk else chunk"
    from a have ne: "chunk \<noteq> []" "?c \<noteq> []" by (auto simp: getEsc_def Let_def split: if_splits)
    from a have "rest = drop (snd (DecodeRuneInString ?c)) ?c"
      by (auto simp: getEsc_def Let_def split: if_splits prod.splits)
    moreover have "1 \<le> snd (DecodeRuneInString ?c)" using ne(2) by (rule width)
    moreover have "length ?c \<le> length chunk" by simp
    ultimately show ?thesis using ne by (cases ?c) auto
  qed
  show ?thesis
  proof (relation "measure (\<lambda>(r, match, nrange, chunk). length chunk)", goal_cases)
    case 1
    then show ?case by simp
  next
    case (2 r match nrange chunk x lo chunk1 y hi chunk2)
    from getEsc_shorter[of chunk lo chunk1] getEsc_shorter[of "tl chunk1" hi chunk2] 2
    show ?case by auto
  next
    case (3 r match nrange chunk x lo chunk1)
    from getEsc_shorter[of chunk lo chunk1] 3 show ?case by auto
  qed
qed

declare classRanges.simps [simp del]

text \<open>
  \<^verbatim>\<open>matchChunk\<close>: the rest of the name when the chunk matches at its head, \<open>None\<close> when it
  does not. After a failure the loop goes on over the chunk to find errors of its
  syntax, and does not read the name any more.
\<close>

function matchLoop :: "bool \<Rightarrow> string \<Rightarrow> string \<Rightarrow> error + string option" where
  "matchLoop failed chunk s =
     (case chunk of
        [] \<Rightarrow> Inr (if failed then None else Some s)
      | c # chunk1 \<Rightarrow>
          let failed = (failed \<or> s = []) in
          if c = CHR ''['' then
            (let r = (if failed then 0 else fst (DecodeRuneInString s));
                 s1 = (if failed then s else drop (snd (DecodeRuneInString s)) s);
                 negated = (chunk1 \<noteq> [] \<and> hd chunk1 = CHR ''^'');
                 chunk2 = (if negated then tl chunk1 else chunk1)
             in case classRanges r False 0 chunk2 of
                  Inl e \<Rightarrow> Inl e
                | Inr (match, chunk3) \<Rightarrow> matchLoop (failed \<or> match = negated) chunk3 s1)
          else if c = CHR ''?'' then
            (if failed then matchLoop True chunk1 s
             else matchLoop (hd s = sep) chunk1 (drop (snd (DecodeRuneInString s)) s))
          else if c = backslash then
            (case chunk1 of
               [] \<Rightarrow> Inl ErrBadPattern
             | d # chunk2 \<Rightarrow>
                 if failed then matchLoop True chunk2 s else matchLoop (d \<noteq> hd s) chunk2 (tl s))
          else
            (if failed then matchLoop True chunk1 s else matchLoop (c \<noteq> hd s) chunk1 (tl s)))"
  by pat_completeness auto
termination
proof -
  have width: "1 \<le> snd (DecodeRuneInString s)" if "s \<noteq> []" for s
    using that by (cases s) (auto simp: DecodeRuneInString_def Let_def split: list.splits)
  have getEsc_shorter: "length rest < length chunk" if a: "getEsc chunk = Inr (r, rest)" for chunk r rest
  proof -
    let ?c = "if hd chunk = backslash then tl chunk else chunk"
    from a have ne: "chunk \<noteq> []" "?c \<noteq> []" by (auto simp: getEsc_def Let_def split: if_splits)
    from a have "rest = drop (snd (DecodeRuneInString ?c)) ?c"
      by (auto simp: getEsc_def Let_def split: if_splits prod.splits)
    moreover have "1 \<le> snd (DecodeRuneInString ?c)" using ne(2) by (rule width)
    moreover have "length ?c \<le> length chunk" by simp
    ultimately show ?thesis using ne by (cases ?c) auto
  qed
  have classRanges_shorter: "length rest < length chunk"
    if "classRanges r match nrange chunk = Inr (m, rest)" for r match nrange chunk m rest
    using that
  proof (induction r match nrange chunk rule: classRanges.induct)
    case (1 r match nrange chunk)
    show ?case
    proof (cases "chunk \<noteq> [] \<and> hd chunk = CHR '']'' \<and> 0 < nrange")
      case True
      then show ?thesis using "1.prems" by (subst (asm) classRanges.simps) (cases chunk, auto)
    next
      case False
      then obtain lo chunk1 where g1: "getEsc chunk = Inr (lo, chunk1)"
        using "1.prems" by (subst (asm) classRanges.simps) (auto split: sum.splits)
      note s1 = getEsc_shorter[OF g1]
      show ?thesis
      proof (cases "hd chunk1 = CHR ''-''")
        case True
        then obtain hi chunk2 where g2: "getEsc (tl chunk1) = Inr (hi, chunk2)"
          using "1.prems" False g1 by (subst (asm) classRanges.simps) (auto split: sum.splits)
        have "classRanges r (match \<or> (lo \<le> r \<and> r \<le> hi)) (nrange + 1) chunk2 = Inr (m, rest)"
          using "1.prems" False g1 g2 True by (subst (asm) classRanges.simps) simp
        from "1.IH"(1)[OF False g1 refl True g2 refl this] getEsc_shorter[OF g2] s1
        show ?thesis by simp
      next
        case F: False
        have "classRanges r (match \<or> lo = r) (nrange + 1) chunk1 = Inr (m, rest)"
          using "1.prems" False g1 F by (subst (asm) classRanges.simps) simp
        from "1.IH"(2)[OF False g1 refl F this] s1 show ?thesis by simp
      qed
    qed
  qed
  have "length b < Suc (length c)"
    if "classRanges r False 0 (if c \<noteq> [] \<and> hd c = CHR ''^'' then tl c else c) = Inr (a, b)"
    for r c a b
  proof -
    have "length (if c \<noteq> [] \<and> hd c = CHR ''^'' then tl c else c) \<le> length c" by simp
    with classRanges_shorter[OF that] show ?thesis by simp
  qed
  then show ?thesis
    by (relation "measure (\<lambda>(failed, chunk, s). length chunk)") auto
qed

declare matchLoop.simps [simp del]

definition matchChunk :: "string \<Rightarrow> string \<Rightarrow> error + string option" where
  "matchChunk chunk s = matchLoop False chunk s"

text \<open>
  The loops of \<^verbatim>\<open>Match\<close>. After a star the chunk is tried at the next positions of the
  name, as long as no separator is passed; a match that does not use up the name is no
  match for the last chunk. When the name does not match, the rest of the pattern is
  read for errors of its syntax.
\<close>

fun starLoop :: "string \<Rightarrow> string \<Rightarrow> string \<Rightarrow> error + string option" where
  "starLoop chunk rest [] = Inr None"
| "starLoop chunk rest (c # name) =
     (if c = sep then Inr None
      else
        (case matchChunk chunk name of
           Inl e \<Rightarrow> Inl e
         | Inr (Some t) \<Rightarrow> if rest = [] \<and> t \<noteq> [] then starLoop chunk rest name else Inr (Some t)
         | Inr None \<Rightarrow> starLoop chunk rest name))"

function checkRest :: "string \<Rightarrow> error + bool" where
  "checkRest pattern =
     (if pattern = [] then Inr False
      else
        (case scanChunk pattern of (star, chunk, rest) \<Rightarrow>
           (case matchChunk chunk [] of
              Inl e \<Rightarrow> Inl e
            | Inr t \<Rightarrow> checkRest rest)))"
  by pat_completeness auto
termination
proof -
  have scanLoop_append: "p = chunk @ rest" if "scanLoop inrange p = (chunk, rest)"
    for inrange p chunk rest
    using that
    by (induction inrange p arbitrary: chunk rest rule: scanLoop.induct)
       (auto split: if_splits prod.splits)
  have scanLoop_chunk: "chunk \<noteq> []"
    if "p \<noteq> []" "hd p \<noteq> CHR ''*''" "scanLoop inrange p = (chunk, rest)" for p inrange chunk rest
    using that by (cases "(inrange, p)" rule: scanLoop.cases) (auto split: if_splits prod.splits)
  have scanChunk_shorter: "length rest < length pattern"
    if ne: "pattern \<noteq> []" and sc: "(star, chunk, rest) = scanChunk pattern" for pattern star chunk rest
  proof -
    let ?p = "dropWhile (\<lambda>c. c = CHR ''*'') pattern"
    from sc have sl: "scanLoop False ?p = (chunk, rest)"
      by (auto simp: scanChunk_def split: prod.splits)
    have p: "?p = chunk @ rest" by (rule scanLoop_append[OF sl])
    then have lp: "length ?p = length chunk + length rest" by (metis length_append)
    show ?thesis
    proof (cases "hd pattern = CHR ''*''")
      case True
      then have "length ?p < length pattern"
        using ne by (cases pattern) (auto simp: le_imp_less_Suc length_dropWhile_le)
      then show ?thesis using lp by simp
    next
      case False
      then have e: "?p = pattern" using ne by (cases pattern) auto
      then have "chunk \<noteq> []" using scanLoop_chunk[OF _ _ sl] ne False by simp
      then show ?thesis using lp e by simp
    qed
  qed
  show ?thesis
    by (relation "measure length") (auto dest: scanChunk_shorter)
qed

declare checkRest.simps [simp del]

function filepath_Match :: "string \<Rightarrow> string \<Rightarrow> error + bool" where
  "filepath_Match pattern name =
     (if pattern = [] then Inr (name = [])
      else
        (case scanChunk pattern of (star, chunk, rest) \<Rightarrow>
           if star \<and> chunk = [] then Inr (sep \<notin> set name)
           else
             (case matchChunk chunk name of
                Inl e \<Rightarrow> Inl e
              | Inr m \<Rightarrow>
                  if m \<noteq> None \<and> (the m = [] \<or> rest \<noteq> []) then filepath_Match rest (the m)
                  else if star then
                    (case starLoop chunk rest name of
                       Inl e \<Rightarrow> Inl e
                     | Inr (Some t) \<Rightarrow> filepath_Match rest t
                     | Inr None \<Rightarrow> checkRest rest)
                  else checkRest rest)))"
  by pat_completeness auto
termination
proof -
  have scanLoop_append: "p = chunk @ rest" if "scanLoop inrange p = (chunk, rest)"
    for inrange p chunk rest
    using that
    by (induction inrange p arbitrary: chunk rest rule: scanLoop.induct)
       (auto split: if_splits prod.splits)
  have scanLoop_chunk: "chunk \<noteq> []"
    if "p \<noteq> []" "hd p \<noteq> CHR ''*''" "scanLoop inrange p = (chunk, rest)" for p inrange chunk rest
    using that by (cases "(inrange, p)" rule: scanLoop.cases) (auto split: if_splits prod.splits)
  have scanChunk_shorter: "length rest < length pattern"
    if ne: "pattern \<noteq> []" and sc: "(star, chunk, rest) = scanChunk pattern" for pattern star chunk rest
  proof -
    let ?p = "dropWhile (\<lambda>c. c = CHR ''*'') pattern"
    from sc have sl: "scanLoop False ?p = (chunk, rest)"
      by (auto simp: scanChunk_def split: prod.splits)
    have p: "?p = chunk @ rest" by (rule scanLoop_append[OF sl])
    then have lp: "length ?p = length chunk + length rest" by (metis length_append)
    show ?thesis
    proof (cases "hd pattern = CHR ''*''")
      case True
      then have "length ?p < length pattern"
        using ne by (cases pattern) (auto simp: le_imp_less_Suc length_dropWhile_le)
      then show ?thesis using lp by simp
    next
      case False
      then have e: "?p = pattern" using ne by (cases pattern) auto
      then have "chunk \<noteq> []" using scanLoop_chunk[OF _ _ sl] ne False by simp
      then show ?thesis using lp e by simp
    qed
  qed
  show ?thesis
    by (relation "measure (\<lambda>(pattern, name). length pattern)") (auto dest: scanChunk_shorter)
qed

declare filepath_Match.simps [simp del]

subsection \<open>\<^verbatim>\<open>filepath.Glob\<close>\<close>

text \<open>
  The file system is the tree at the directory a path is resolved in: the working
  directory for a path that is not rooted, the root of the file system for a rooted one.
  A path is looked up by its elements; an element \<open>..\<close> left at the start of a cleaned
  path leads out of the tree, and such a path is not found.
\<close>

definition hasMeta :: "string \<Rightarrow> bool" where
  "hasMeta path = list_ex (\<lambda>c. c \<in> set [CHR ''*'', CHR ''?'', CHR ''['', backslash]) path"

text \<open>
  \<^verbatim>\<open>glob\<close>: the names of a directory that match a pattern, in sorted order, each joined to
  the directory, are added to the matches. A directory that is missing, is no directory
  or cannot be read adds nothing. An error of \<^verbatim>\<open>Match\<close> ends the search; the matches
  found up to there are left out here, as \<^verbatim>\<open>Clean\<close> does not use them.
\<close>

fun globNames :: "string \<Rightarrow> string list \<Rightarrow> string list \<Rightarrow> string list list \<Rightarrow> error + string list list" where
  "globNames pattern dir [] m = Inr m"
| "globNames pattern dir (n # names) m =
     (case filepath_Match pattern n of
        Inl e \<Rightarrow> Inl e
      | Inr matched \<Rightarrow> globNames pattern dir names (if matched then m @ [dir @ [n]] else m))"

definition glob :: "node \<Rightarrow> string list \<Rightarrow> string \<Rightarrow> string list list \<Rightarrow> error + string list list" where
  "glob fs dir pattern matches =
     (case os_Stat fs dir of
        Some (Dir es) \<Rightarrow> globNames pattern dir (sort (map fst es)) matches
      | _ \<Rightarrow> Inr matches)"

fun globAll :: "node \<Rightarrow> string \<Rightarrow> string list list \<Rightarrow> string list list \<Rightarrow> error + string list list" where
  "globAll fs file [] matches = Inr matches"
| "globAll fs file (d # ds) matches =
     (case glob fs d file matches of
        Inl e \<Rightarrow> Inl e
      | Inr matches' \<Rightarrow> globAll fs file ds matches')"

text \<open>
  \<^verbatim>\<open>globWithLimit\<close> on a cleaned path, rooted or not, given by its elements. The pattern
  is first tested for errors of its syntax. A path without a special character is looked
  up. Otherwise the path is split at its last separator into a directory and a name;
  the directory is searched for the name when it has no special character, and
  otherwise is a pattern itself, and each of its matches is searched.
\<close>

function filepath_Glob :: "node \<Rightarrow> bool \<Rightarrow> string list \<Rightarrow> nat \<Rightarrow> error + string list list" where
  "filepath_Glob fs r segs depth =
     (if depth = 10000 then Inl ErrBadPattern
      else
        (case filepath_Match (pathString (r, segs)) [] of
           Inl e \<Rightarrow> Inl e
         | Inr matched \<Rightarrow>
             if \<not> hasMeta (pathString (r, segs)) then
               (case os_Stat fs segs of None \<Rightarrow> Inr [] | Some c \<Rightarrow> Inr [segs])
             else if \<not> hasMeta (pathString (r, butlast segs)) then glob fs (butlast segs) (last segs) []
             else if butlast segs = segs then Inl ErrBadPattern
             else
               (case filepath_Glob fs r (butlast segs) (depth + 1) of
                  Inl e \<Rightarrow> Inl e
                | Inr m \<Rightarrow> globAll fs (last segs) m [])))"
  by pat_completeness auto
termination
  by (relation "measure (\<lambda>(fs, r, segs, depth). length segs)") (auto simp: butlast_conv_take)

declare filepath_Glob.simps [simp del]

subsection \<open>\<^verbatim>\<open>Clean\<close>\<close>

definition patterns :: "string list" where
  "patterns = [''index.html'', ''style.css'', ''*_index.html'', ''player_*.html'']"

text \<open>The body of the inner loop: a match is removed and counted.\<close>

definition removeMatch :: "bool \<Rightarrow> string list \<Rightarrow> node \<times> nat \<Rightarrow> (node \<times> nat) \<times> error option" where
  "removeMatch r match st =
     (case st of (fs, cnt) \<Rightarrow>
        (case os_Remove fs match of
           None \<Rightarrow> ((fs, cnt), Some (RemoveError (pathString (r, match))))
         | Some fs' \<Rightarrow> ((fs', cnt + 1), None)))"

text \<open>
  The body of the outer loop: the matches of
  \<^verbatim>\<open>filepath.Glob(filepath.Join(g.rootDir, pattern))\<close> on the file system as it is then,
  and the removal of each.
\<close>

definition cleanPattern :: "Generator \<Rightarrow> string \<Rightarrow> node \<times> nat \<Rightarrow> (node \<times> nat) \<times> error option" where
  "cleanPattern g pattern st =
     (case filepath_Join (rootDir g) pattern of
        (r, segs) \<Rightarrow>
          (case filepath_Glob (fst st) r segs 0 of
             Inl e \<Rightarrow> (st, Some e)
           | Inr matches \<Rightarrow> forEach (removeMatch r) matches st))"

text \<open>\<^verbatim>\<open>Clean\<close>: the file system it leaves, the count and the error.\<close>

definition Clean :: "Generator \<Rightarrow> node \<Rightarrow> (node \<times> nat) \<times> error option" where
  "Clean g fs = forEach (cleanPattern g) patterns (fs, 0)"

text \<open>
  An environment in which nothing fails, \<^verbatim>\<open>range\<close> goes through the keys in the order
  of the list, and the sort is the stable insertion sort.
\<close>

definition stableEnv :: Env where
  "stableEnv =
     \<lparr> parseIndexOk = True, parsePlayerOk = True, executeIndexOk = (\<lambda>_. True),
       executePlayerOk = (\<lambda>_. True), writeFileOk = (\<lambda>_. True), pathEscape = (\<lambda>s. s),
       rangeOrder = (\<lambda>ks. ks), sortSlice_d = (\<lambda>lt. sort_key Name_d),
       sortSlice_v = (\<lambda>lt. sort_key Name) \<rparr>"

section \<open>\<^verbatim>\<open>sort.Slice\<close> as Go implements it\<close>

text \<open>
  \<^verbatim>\<open>sort.Slice(x, less)\<close> of package \<^verbatim>\<open>sort\<close> since Go 1.19: the pattern-defeating
  quicksort \<^verbatim>\<open>pdqsort_func\<close> on the indices of the slice. The slice is a list, \<^verbatim>\<open>data.Less(i, j)\<close>
  is \<open>lt (xs ! i) (xs ! j)\<close> for the order \<open>lt\<close> of the elements that the caller's
  \<^verbatim>\<open>less\<close> compares by, and \<^verbatim>\<open>data.Swap\<close> is \<open>swap\<close>. The indices are natural numbers;
  every index the algorithm reads lies in the slice.
\<close>

definition swap :: "'a list \<Rightarrow> nat \<Rightarrow> nat \<Rightarrow> 'a list" where
  "swap xs i j = xs[i := xs ! j, j := xs ! i]"

text \<open>
  \<^verbatim>\<open>insertionSort_func\<close>: for \<open>i\<close> from \<open>a + 1\<close> below \<open>b\<close>, the element at \<open>i\<close> is moved down
  while \<open>j > a\<close> and it is less than the element before it.
\<close>

fun insertDown :: "('a \<Rightarrow> 'a \<Rightarrow> bool) \<Rightarrow> nat \<Rightarrow> nat \<Rightarrow> 'a list \<Rightarrow> 'a list" where
  "insertDown lt a 0 xs = xs"
| "insertDown lt a (Suc j) xs =
     (if a < Suc j \<and> lt (xs ! Suc j) (xs ! j) then insertDown lt a j (swap xs (Suc j) j) else xs)"

definition insertionSort_func :: "('a \<Rightarrow> 'a \<Rightarrow> bool) \<Rightarrow> 'a list \<Rightarrow> nat \<Rightarrow> nat \<Rightarrow> 'a list" where
  "insertionSort_func lt xs a b = fold (insertDown lt a) [a + 1..<b] xs"

text \<open>\<^verbatim>\<open>siftDown_func\<close> and \<^verbatim>\<open>heapSort_func\<close>; the argument \<open>root\<close> is the variable of the loop,
  which starts at \<^verbatim>\<open>lo\<close>.\<close>

function siftDown_func :: "('a \<Rightarrow> 'a \<Rightarrow> bool) \<Rightarrow> 'a list \<Rightarrow> nat \<Rightarrow> nat \<Rightarrow> nat \<Rightarrow> 'a list" where
  "siftDown_func lt xs root hi first =
     (if hi \<le> 2 * root + 1 then xs
      else
        let child = (if 2 * root + 2 < hi \<and> lt (xs ! (first + (2 * root + 1))) (xs ! (first + (2 * root + 2)))
                     then 2 * root + 2 else 2 * root + 1)
        in if \<not> lt (xs ! (first + root)) (xs ! (first + child)) then xs
           else siftDown_func lt (swap xs (first + root) (first + child)) child hi first)"
  by pat_completeness auto
termination
  by (relation "measure (\<lambda>(lt, xs, root, hi, first). hi - root)") (auto split: if_splits)

definition heapSort_func :: "('a \<Rightarrow> 'a \<Rightarrow> bool) \<Rightarrow> 'a list \<Rightarrow> nat \<Rightarrow> nat \<Rightarrow> 'a list" where
  "heapSort_func lt xs a b =
     (let first = a; lo = 0; hi = b - a;
          xs = fold (\<lambda>i xs. siftDown_func lt xs i hi first) (rev [0..<Suc ((hi - 1) div 2)]) xs
      in fold (\<lambda>i xs. siftDown_func lt (swap xs first (first + i)) lo i first) (rev [0..<hi]) xs)"

text \<open>
  The two inner loops of the partitions: \<open>i\<close> goes up while \<open>i \<le> j\<close> and a test holds of
  it, then \<open>j\<close> goes down while \<open>i \<le> j\<close> and a test holds of it. In the source \<open>i\<close> is
  \<open>a + 1\<close> at least, so \<open>j\<close> does not go below \<open>a\<close>, and not below zero.
\<close>

function scanUp :: "(nat \<Rightarrow> bool) \<Rightarrow> nat \<Rightarrow> nat \<Rightarrow> nat" where
  "scanUp P i j = (if i \<le> j \<and> P i then scanUp P (Suc i) j else i)"
  by pat_completeness auto
termination
  by (relation "measure (\<lambda>(P, i, j). Suc j - i)") auto

fun scanDown :: "(nat \<Rightarrow> bool) \<Rightarrow> nat \<Rightarrow> nat \<Rightarrow> nat" where
  "scanDown P i 0 = 0"
| "scanDown P i (Suc j) = (if i \<le> Suc j \<and> P (Suc j) then scanDown P i j else Suc j)"

declare scanUp.simps [simp del]

text \<open>
  The loop both partitions end with: the two inner loops, then the loop ends when
  \<open>i > j\<close>, and otherwise the two elements are swapped, \<open>i\<close> goes up and \<open>j\<close> down.
\<close>

function sweep :: "('a list \<Rightarrow> nat \<Rightarrow> bool) \<Rightarrow> ('a list \<Rightarrow> nat \<Rightarrow> bool) \<Rightarrow> 'a list \<Rightarrow> nat \<Rightarrow> nat
    \<Rightarrow> 'a list \<times> nat \<times> nat" where
  "sweep up down xs i j =
     (let i' = scanUp (up xs) i j;
          j' = scanDown (down xs) i' j
      in if j' < i' then (xs, i', j')
         else sweep up down (swap xs i' j') (Suc i') (j' - 1))"
  by pat_completeness auto
termination
proof -
  have scanUp_ge: "i \<le> scanUp P i j" for P i j
  proof (induction P i j rule: scanUp.induct)
    case (1 P i j)
    show ?case
    proof (cases "i \<le> j \<and> P i")
      case True
      then have "Suc i \<le> scanUp P (Suc i) j" using 1 by simp
      then show ?thesis using True by (subst scanUp.simps) simp
    next
      case False
      then show ?thesis by (subst scanUp.simps) auto
    qed
  qed
  have scanDown_le: "scanDown P i j \<le> j" for P i j
    by (induction j) auto
  show ?thesis
  proof (relation "measure (\<lambda>(up, down, xs, i, j). Suc j - i)", goal_cases)
    case 1
    then show ?case by simp
  next
    case (2 up down xs i j i' j')
    have "i \<le> i'" unfolding 2(1) by (rule scanUp_ge)
    moreover have "j' \<le> j" unfolding 2(2) by (rule scanDown_le)
    ultimately show ?case using 2(3) by auto
  qed
qed

declare sweep.simps [simp del]

text \<open>
  \<^verbatim>\<open>partition_func\<close>: the pivot goes to \<open>a\<close>; the result is the slice, the new place of
  the pivot and whether the slice was partitioned already. \<^verbatim>\<open>partitionEqual_func\<close>
  returns the slice and the index \<open>i\<close>.
\<close>

definition partition_func :: "('a \<Rightarrow> 'a \<Rightarrow> bool) \<Rightarrow> 'a list \<Rightarrow> nat \<Rightarrow> nat \<Rightarrow> nat \<Rightarrow> 'a list \<times> nat \<times> bool" where
  "partition_func lt xs a b pivot =
     (let xs = swap xs a pivot;
          i = scanUp (\<lambda>i. lt (xs ! i) (xs ! a)) (a + 1) (b - 1);
          j = scanDown (\<lambda>j. \<not> lt (xs ! j) (xs ! a)) i (b - 1)
      in if j < i then (swap xs j a, j, True)
         else
           (case sweep (\<lambda>xs i. lt (xs ! i) (xs ! a)) (\<lambda>xs j. \<not> lt (xs ! j) (xs ! a))
                   (swap xs i j) (i + 1) (j - 1) of
              (xs, i, j) \<Rightarrow> (swap xs j a, j, False)))"

definition partitionEqual_func :: "('a \<Rightarrow> 'a \<Rightarrow> bool) \<Rightarrow> 'a list \<Rightarrow> nat \<Rightarrow> nat \<Rightarrow> nat \<Rightarrow> 'a list \<times> nat" where
  "partitionEqual_func lt xs a b pivot =
     (case sweep (\<lambda>xs i. \<not> lt (xs ! a) (xs ! i)) (\<lambda>xs j. lt (xs ! a) (xs ! j))
             (swap xs a pivot) (a + 1) (b - 1) of
        (xs, i, j) \<Rightarrow> (xs, i))"

text \<open>
  \<^verbatim>\<open>partialInsertionSort_func\<close>: at most five steps; a step goes on over the elements in
  order, returns true at the end of the range and false in a range shorter than fifty,
  and otherwise swaps the pair out of order and shifts the smaller element to the left
  and the greater one to the right.
\<close>

function skipOrdered :: "('a \<Rightarrow> 'a \<Rightarrow> bool) \<Rightarrow> 'a list \<Rightarrow> nat \<Rightarrow> nat \<Rightarrow> nat" where
  "skipOrdered lt xs i b = (if i < b \<and> \<not> lt (xs ! i) (xs ! (i - 1)) then skipOrdered lt xs (Suc i) b else i)"
  by pat_completeness auto
termination
  by (relation "measure (\<lambda>(lt, xs, i, b). b - i)") auto

fun shiftLeft :: "('a \<Rightarrow> 'a \<Rightarrow> bool) \<Rightarrow> nat \<Rightarrow> 'a list \<Rightarrow> 'a list" where
  "shiftLeft lt 0 xs = xs"
| "shiftLeft lt (Suc j) xs =
     (if \<not> lt (xs ! Suc j) (xs ! j) then xs else shiftLeft lt j (swap xs (Suc j) j))"

function shiftRight :: "('a \<Rightarrow> 'a \<Rightarrow> bool) \<Rightarrow> nat \<Rightarrow> nat \<Rightarrow> 'a list \<Rightarrow> 'a list" where
  "shiftRight lt j b xs =
     (if j < b then (if \<not> lt (xs ! j) (xs ! (j - 1)) then xs else shiftRight lt (Suc j) b (swap xs j (j - 1)))
      else xs)"
  by pat_completeness auto
termination
  by (relation "measure (\<lambda>(lt, j, b, xs). b - j)") auto

primrec partialInsertionLoop :: "nat \<Rightarrow> ('a \<Rightarrow> 'a \<Rightarrow> bool) \<Rightarrow> nat \<Rightarrow> nat \<Rightarrow> 'a list \<Rightarrow> nat \<Rightarrow> 'a list \<times> bool" where
  "partialInsertionLoop 0 lt a b xs i = (xs, False)"
| "partialInsertionLoop (Suc steps) lt a b xs i =
     (let i = skipOrdered lt xs i b in
      if i = b then (xs, True)
      else if b - a < 50 then (xs, False)
      else
        let xs = swap xs i (i - 1);
            xs = (if 2 \<le> i - a then shiftLeft lt (i - 1) xs else xs);
            xs = (if 2 \<le> b - i then shiftRight lt (i + 1) b xs else xs)
        in partialInsertionLoop steps lt a b xs i)"

definition partialInsertionSort_func :: "('a \<Rightarrow> 'a \<Rightarrow> bool) \<Rightarrow> 'a list \<Rightarrow> nat \<Rightarrow> nat \<Rightarrow> 'a list \<times> bool" where
  "partialInsertionSort_func lt xs a b = partialInsertionLoop 5 lt a b xs (a + 1)"

text \<open>
  \<^verbatim>\<open>breakPatterns_func\<close>, with \<^verbatim>\<open>bits.Len\<close>, \<^verbatim>\<open>nextPowerOfTwo\<close> and the generator
  \<^verbatim>\<open>xorshift\<close> on 64-bit words, which starts from the length of the range.
\<close>

fun bits_Len :: "nat \<Rightarrow> nat" where
  "bits_Len n = (if n = 0 then 0 else Suc (bits_Len (n div 2)))"

definition nextPowerOfTwo :: "nat \<Rightarrow> nat" where
  "nextPowerOfTwo n = 2 ^ bits_Len n"

definition xorshift_Next :: "64 word \<Rightarrow> 64 word" where
  "xorshift_Next r =
     (let r = r XOR push_bit 13 r;
          r = r XOR drop_bit 7 r;
          r = r XOR push_bit 17 r
      in r)"

definition breakPatterns_func :: "'a list \<Rightarrow> nat \<Rightarrow> nat \<Rightarrow> 'a list" where
  "breakPatterns_func xs a b =
     (let len = b - a in
      if 8 \<le> len then
        let modulus = nextPowerOfTwo len;
            idx = a + (len div 4) * 2 - 1;
            other = (\<lambda>r. let n = unat (r AND word_of_nat (modulus - 1))
                          in if len \<le> n then n - len else n);
            r0 = xorshift_Next (word_of_nat len);
            r1 = xorshift_Next r0;
            r2 = xorshift_Next r1
        in swap (swap (swap xs (idx - 1) (a + other r0)) idx (a + other r1)) (idx + 1) (a + other r2)
      else xs)"

text \<open>
  \<^verbatim>\<open>choosePivot_func\<close> with \<^verbatim>\<open>order2_func\<close>, \<^verbatim>\<open>median_func\<close> and \<^verbatim>\<open>medianAdjacent_func\<close>; the
  count of swaps is passed on and returned.
\<close>

datatype sortedHint = unknownHint | increasingHint | decreasingHint

definition order2_func :: "('a \<Rightarrow> 'a \<Rightarrow> bool) \<Rightarrow> 'a list \<Rightarrow> nat \<Rightarrow> nat \<Rightarrow> nat \<Rightarrow> nat \<times> nat \<times> nat" where
  "order2_func lt xs a b swaps = (if lt (xs ! b) (xs ! a) then (b, a, swaps + 1) else (a, b, swaps))"

definition median_func :: "('a \<Rightarrow> 'a \<Rightarrow> bool) \<Rightarrow> 'a list \<Rightarrow> nat \<Rightarrow> nat \<Rightarrow> nat \<Rightarrow> nat \<Rightarrow> nat \<times> nat" where
  "median_func lt xs a b c swaps =
     (case order2_func lt xs a b swaps of (a, b, swaps) \<Rightarrow>
      case order2_func lt xs b c swaps of (b, c, swaps) \<Rightarrow>
      case order2_func lt xs a b swaps of (a, b, swaps) \<Rightarrow> (b, swaps))"

definition medianAdjacent_func :: "('a \<Rightarrow> 'a \<Rightarrow> bool) \<Rightarrow> 'a list \<Rightarrow> nat \<Rightarrow> nat \<Rightarrow> nat \<times> nat" where
  "medianAdjacent_func lt xs a swaps = median_func lt xs (a - 1) a (a + 1) swaps"

definition choosePivot_func :: "('a \<Rightarrow> 'a \<Rightarrow> bool) \<Rightarrow> 'a list \<Rightarrow> nat \<Rightarrow> nat \<Rightarrow> nat \<times> sortedHint" where
  "choosePivot_func lt xs a b =
     (let l = b - a;
          i = a + l div 4 * 1;
          j = a + l div 4 * 2;
          k = a + l div 4 * 3;
          (j, swaps) =
            (if 8 \<le> l then
               (if 50 \<le> l then
                  (case medianAdjacent_func lt xs i 0 of (i, swaps) \<Rightarrow>
                   case medianAdjacent_func lt xs j swaps of (j, swaps) \<Rightarrow>
                   case medianAdjacent_func lt xs k swaps of (k, swaps) \<Rightarrow>
                     median_func lt xs i j k swaps)
                else median_func lt xs i j k 0)
             else (j, 0))
      in if swaps = 0 then (j, increasingHint)
         else if swaps = 12 then (j, decreasingHint)
         else (j, unknownHint))"

function reverseLoop :: "'a list \<Rightarrow> nat \<Rightarrow> nat \<Rightarrow> 'a list" where
  "reverseLoop xs i j = (if i < j then reverseLoop (swap xs i j) (Suc i) (j - 1) else xs)"
  by pat_completeness auto
termination
  by (relation "measure (\<lambda>(xs, i, j). j - i)") auto

definition reverseRange_func :: "'a list \<Rightarrow> nat \<Rightarrow> nat \<Rightarrow> 'a list" where
  "reverseRange_func xs a b = reverseLoop xs a (b - 1)"

text \<open>
  One turn of the loop of \<^verbatim>\<open>pdqsort_func\<close> on a range longer than twelve with a limit
  that is not zero, up to the partition: the slice is sorted, or it was partitioned into
  the elements equal to the pivot and the greater ones (the new \<open>a\<close> is returned), or it
  was partitioned around the pivot (its place and the flag are returned). The limit is
  returned as well.
\<close>

datatype 'a pdqstep = StepSorted "'a list" | StepEqual "'a list" nat nat | StepPart "'a list" nat bool nat

definition pdqStep :: "('a \<Rightarrow> 'a \<Rightarrow> bool) \<Rightarrow> 'a list \<Rightarrow> nat \<Rightarrow> nat \<Rightarrow> nat \<Rightarrow> bool \<Rightarrow> bool \<Rightarrow> 'a pdqstep" where
  "pdqStep lt xs a b limit wasBalanced wasPartitioned =
     (let (xs, limit) = (if \<not> wasBalanced then (breakPatterns_func xs a b, limit - 1) else (xs, limit));
          (pivot, hint) = choosePivot_func lt xs a b;
          (xs, pivot, hint) =
            (if hint = decreasingHint
             then (reverseRange_func xs a b, (b - 1) - (pivot - a), increasingHint)
             else (xs, pivot, hint));
          (xs, sorted) =
            (if wasBalanced \<and> wasPartitioned \<and> hint = increasingHint
             then partialInsertionSort_func lt xs a b else (xs, False))
      in if sorted then StepSorted xs
         else if 0 < a \<and> \<not> lt (xs ! (a - 1)) (xs ! pivot)
         then (case partitionEqual_func lt xs a b pivot of (xs, mid) \<Rightarrow> StepEqual xs mid limit)
         else (case partition_func lt xs a b pivot of
                 (xs, mid, alreadyPartitioned) \<Rightarrow> StepPart xs mid alreadyPartitioned limit))"

text \<open>
  \<^verbatim>\<open>pdqsort_func\<close>: insertion sort on a range of twelve elements at most, heap sort when
  the limit is used up; after a partition the shorter side is sorted by a call of its
  own, which starts with both flags true, and the loop goes on with the longer side.
\<close>

function pdqsort_func :: "('a \<Rightarrow> 'a \<Rightarrow> bool) \<Rightarrow> 'a list \<Rightarrow> nat \<Rightarrow> nat \<Rightarrow> nat \<Rightarrow> bool \<Rightarrow> bool \<Rightarrow> 'a list" where
  "pdqsort_func lt xs a b limit wasBalanced wasPartitioned =
     (if b - a \<le> 12 then insertionSort_func lt xs a b
      else if limit = 0 then heapSort_func lt xs a b
      else
        (case pdqStep lt xs a b limit wasBalanced wasPartitioned of
           StepSorted xs \<Rightarrow> xs
         | StepEqual xs mid limit \<Rightarrow> pdqsort_func lt xs mid b limit wasBalanced wasPartitioned
         | StepPart xs mid alreadyPartitioned limit \<Rightarrow>
             if mid - a < b - mid
             then pdqsort_func lt (pdqsort_func lt xs a mid limit True True) (mid + 1) b limit
                    ((b - a) div 8 \<le> mid - a) alreadyPartitioned
             else pdqsort_func lt (pdqsort_func lt xs (mid + 1) b limit True True) a mid limit
                    ((b - a) div 8 \<le> b - mid) alreadyPartitioned))"
  by pat_completeness auto
termination
proof -
  have scanUp_ge: "i \<le> scanUp P i j" for P i j
  proof (induction P i j rule: scanUp.induct)
    case (1 P i j)
    show ?case
    proof (cases "i \<le> j \<and> P i")
      case True
      then have "Suc i \<le> scanUp P (Suc i) j" using 1 by simp
      then show ?thesis using True by (subst scanUp.simps) simp
    next
      case False
      then show ?thesis by (subst scanUp.simps) auto
    qed
  qed
  have scanDown_le: "scanDown P i j \<le> j" for P i j
    by (induction j) auto
  have scanDown_ge: "m \<le> Suc (scanDown P i j)" if "m \<le> i" "m \<le> Suc j" for m P i j
    using that by (induction j) auto
  have sweep_bounds: "i \<le> i' \<and> j' \<le> j \<and> m \<le> Suc j'"
    if "sweep up down xs i j = (xs', i', j')" "m \<le> i" "m \<le> Suc j"
    for up down and xs xs' :: "'a list" and i j i' j' m
    using that
  proof (induction up down xs i j arbitrary: xs' i' j' rule: sweep.induct)
    case (1 up down xs i j)
    let ?i = "scanUp (up xs) i j" and ?j = "scanDown (down xs) (scanUp (up xs) i j) j"
    have a: "i \<le> ?i" by (rule scanUp_ge)
    have b: "?j \<le> j" by (rule scanDown_le)
    have c: "m \<le> Suc ?j" using "1.prems"(2,3) a by (intro scanDown_ge) auto
    show ?case
    proof (cases "?j < ?i")
      case True
      then have r: "xs' = xs" "i' = ?i" "j' = ?j"
        using "1.prems"(1) by (subst (asm) sweep.simps, simp add: Let_def)+
      with a b c show ?thesis by simp
    next
      case False
      then have rec: "sweep up down (swap xs ?i ?j) (Suc ?i) (?j - 1) = (xs', i', j')"
        using "1.prems"(1) by (subst (asm) sweep.simps) (simp add: Let_def)
      have m1: "m \<le> Suc ?i" using "1.prems"(2) a by simp
      have m2: "m \<le> Suc (?j - 1)" using "1.prems"(2) a False by (cases ?j) auto
      from "1.IH"[OF refl refl False rec m1 m2] a b show ?thesis by auto
    qed
  qed
  have partition_func_mid: "a \<le> mid \<and> mid < b"
    if "partition_func lt xs a b pivot = (xs', mid, al)" "a < b"
    for lt and xs xs' :: "'a list" and a b pivot mid al
  proof -
    let ?xs = "swap xs a pivot"
    let ?i = "scanUp (\<lambda>i. lt (?xs ! i) (?xs ! a)) (a + 1) (b - 1)"
    let ?j = "scanDown (\<lambda>j. \<not> lt (?xs ! j) (?xs ! a)) ?i (b - 1)"
    have i: "a + 1 \<le> ?i" by (rule scanUp_ge)
    have j: "?j \<le> b - 1" by (rule scanDown_le)
    have aj: "a + 1 \<le> Suc ?j" using i that(2) by (intro scanDown_ge) auto
    show ?thesis
    proof (cases "?j < ?i")
      case True
      then have mid: "mid = ?j" using that(1) by (simp add: partition_func_def Let_def)
      with j aj that(2) show ?thesis by simp
    next
      case False
      obtain ys i' j' where sw: "sweep (\<lambda>xs i. lt (xs ! i) (xs ! a)) (\<lambda>xs j. \<not> lt (xs ! j) (xs ! a))
                     (swap ?xs ?i ?j) (?i + 1) (?j - 1) = (ys, i', j')"
        by (rule prod_cases3)
      with False that(1) have mid: "mid = j'" by (simp add: partition_func_def Let_def)
      have m1: "a + 1 \<le> ?i + 1" using i by simp
      have m2: "a + 1 \<le> Suc (?j - 1)" using False i by (cases ?j) auto
      from sweep_bounds[OF sw m1 m2] j that(2) mid show ?thesis by auto
    qed
  qed
  have partitionEqual_func_mid: "a < mid"
    if "partitionEqual_func lt xs a b pivot = (xs', mid)" "a < b"
    for lt and xs xs' :: "'a list" and a b pivot mid
  proof -
    obtain ys i' j' where sw: "sweep (\<lambda>xs i. \<not> lt (xs ! a) (xs ! i)) (\<lambda>xs j. lt (xs ! a) (xs ! j))
               (swap xs a pivot) (a + 1) (b - 1) = (ys, i', j')"
      by (rule prod_cases3)
    with that(1) have "mid = i'" by (simp add: partitionEqual_func_def)
    moreover have "a + 1 \<le> Suc (b - 1)" using that(2) by simp
    from sweep_bounds[OF sw order_refl this] have "a + 1 \<le> i'" by simp
    ultimately show ?thesis by simp
  qed
  have stepEqual: "a < mid"
    if "pdqStep lt xs a b limit wb wp = StepEqual xs' mid limit'" "a < b"
    for lt and xs xs' :: "'a list" and a b limit wb wp mid limit'
    using that
    by (auto simp: pdqStep_def Let_def split: prod.splits if_splits dest: partitionEqual_func_mid)
  have stepPart: "a \<le> mid \<and> mid < b"
    if "pdqStep lt xs a b limit wb wp = StepPart xs' mid al limit'" "a < b"
    for lt and xs xs' :: "'a list" and a b limit wb wp mid al limit'
    using that
    by (auto simp: pdqStep_def Let_def split: prod.splits if_splits dest: partition_func_mid)
  show ?thesis
  proof (relation "measure (\<lambda>(lt, xs, a, b, limit, wb, wp). b - a)", goal_cases)
    case 1
    then show ?case by simp
  next
    case (2 lt xs a b limit wb wp xs' mid limit')
    have "a < b" using 2(1) by simp
    from stepEqual[OF 2(3) this] 2(1) show ?case by simp
  next
    case (3 lt xs a b limit wb wp xs' mid al limit')
    have "a < b" using 3(1) by simp
    from stepPart[OF 3(3) this] 3(1) show ?case by auto
  next
    case (4 lt xs a b limit wb wp xs' mid al limit')
    have "a < b" using 4(1) by simp
    from stepPart[OF 4(3) this] 4(1) show ?case by auto
  next
    case (5 lt xs a b limit wb wp xs' mid al limit')
    have "a < b" using 5(1) by simp
    from stepPart[OF 5(3) this] 5(1) show ?case by auto
  next
    case (6 lt xs a b limit wb wp xs' mid al limit')
    have "a < b" using 6(1) by simp
    from stepPart[OF 6(3) this] 6(1) show ?case by auto
  qed
qed

declare pdqsort_func.simps [simp del]

definition sort_Slice :: "('a \<Rightarrow> 'a \<Rightarrow> bool) \<Rightarrow> 'a list \<Rightarrow> 'a list" where
  "sort_Slice lt xs = pdqsort_func lt xs 0 (length xs) (bits_Len (length xs)) True True"

text \<open>An environment in which nothing fails and the sort is the one of Go.\<close>

definition goEnv :: Env where
  "goEnv = stableEnv\<lparr> sortSlice_d := sort_Slice, sortSlice_v := sort_Slice \<rparr>"

section \<open>Notions the properties are stated with\<close>

text \<open>A name that begins with a dot.\<close>

definition hidden :: "string \<Rightarrow> bool" where
  "hidden name = hasPrefix name ''.''"

text \<open>
  The regular files a walk discovers below an entry with a given name, as paths below
  the entry: the files for which every directory on the way, the entry itself included,
  can be read and has a name that does not begin with a dot.
\<close>

fun reach :: "string \<Rightarrow> node \<Rightarrow> string list \<Rightarrow> bool" where
  "reach name File q = (q = [])"
| "reach name (Unreadable em) q = False"
| "reach name (Dir es) [] = False"
| "reach name (Dir es) (n # q) =
     (\<not> hidden name \<and> (case map_of es n of None \<Rightarrow> False | Some c \<Rightarrow> reach n c q))"

definition reachIn :: "(string \<times> node) list \<Rightarrow> string list set" where
  "reachIn es = {n # q | n c q. (n, c) \<in> set es \<and> reach n c q}"

text \<open>
  The shape the callbacks of the source share: an error is returned, a directory with a
  dot name is skipped, and a function \<open>h\<close> is applied to the state at a regular file.
\<close>

definition fileVisitor :: "(string list \<Rightarrow> string \<Rightarrow> 's \<Rightarrow> 's) \<Rightarrow> 's walkfn" where
  "fileVisitor h path name dir err st =
     (case err of
        Some e \<Rightarrow> (st, Err e)
      | None \<Rightarrow>
          if dir then (if hidden name then (st, SkipDir) else (st, Continue))
          else (h path name st, Continue))"

definition lastName :: "string \<Rightarrow> string list \<Rightarrow> string" where
  "lastName name q = (if q = [] then name else last q)"

text \<open>Whether the scan puts the file at a path into the catalog, and the entry it makes.\<close>

definition accepted :: "node \<Rightarrow> string list \<Rightarrow> bool" where
  "accepted root path =
     (let ext = toLower (filepath_Ext (last path))
      in videoExtensions ext
         \<and> \<not> (needsConversion ext \<and> os_Stat root (mp4PathOf path ext) \<noteq> None))"

definition dirString :: "string list \<Rightarrow> string" where
  "dirString segs = (if segs = [] then [] else joinPath segs)"

definition videoOf :: "string list \<Rightarrow> Video" where
  "videoOf path =
     \<lparr> Name = trimSuffix (last path) (toLower (filepath_Ext (last path))),
       FileName = last path,
       RelativePath = joinPath path,
       Extension = toLower (filepath_Ext (last path)),
       Directory = dirString (butlast path),
       PlayerPage = generatePlayerFileName (joinPath path) \<rparr>"

definition addVideo :: "Video \<Rightarrow> Generator \<Rightarrow> Generator" where
  "addVideo v g =
     g\<lparr> videos := videos g @ [v],
        dirTree := dirTree_put (dirTree g) (Directory v) (dirTree_get (dirTree g) (Directory v) @ [v]) \<rparr>"

text \<open>The map \<^verbatim>\<open>dirTree\<close> groups a catalog by directory.\<close>

definition grouped :: "Video list \<Rightarrow> (string \<times> Video list) list \<Rightarrow> bool" where
  "grouped vs m =
     (distinct (map fst m) \<and> fst ` set m = Directory ` set vs
      \<and> (\<forall>d. dirTree_get m d = filter (\<lambda>v. Directory v = d) vs))"

text \<open>
  A directory path is above another, or is that path, when its elements are the first
  elements of the other. The directories a catalog requires pages for, in the words of
  the specification: the root, and every directory above or equal to the directory of a
  video.
\<close>

definition ancestorOrSelf :: "string \<Rightarrow> string \<Rightarrow> bool" where
  "ancestorOrSelf a d =
     (a \<noteq> [] \<and> take (length (splitSep a)) (splitSep d) = splitSep a)"

definition requiredDirs :: "Video list \<Rightarrow> string set" where
  "requiredDirs vs = insert [] {a. \<exists>v \<in> set vs. ancestorOrSelf a (Directory v)}"

text \<open>
  The file name of the listing of a directory in the words of the specification: the
  path elements joined with underscores, filtered as the names of the player pages are.
\<close>

fun joinUnderscore :: "string list \<Rightarrow> string" where
  "joinUnderscore [] = []"
| "joinUnderscore [n] = n"
| "joinUnderscore (n # ns) = n @ CHR ''_'' # joinUnderscore ns"

definition spec_listingFileName :: "string list \<Rightarrow> string" where
  "spec_listingFileName segs =
     (if segs = [] then ''index.html''
      else sanitizeFileName (joinUnderscore segs) @ ''_index.html'')"

text \<open>The paths of the directories above a directory given by its elements, and of that directory.\<close>

definition pathsAbove :: "string list \<Rightarrow> string set" where
  "pathsAbove segs = {joinPath p | p. p \<noteq> [] \<and> (\<exists>r. segs = p @ r)}"

text \<open>The listings and the player pages among the files a run wrote, in the order of writing.\<close>

definition indexPages :: "written \<Rightarrow> (string \<times> IndexData) list" where
  "indexPages out =
     concat (map (\<lambda>w. case snd w of IndexHtml d \<Rightarrow> [(fst w, d)] | PlayerHtml p \<Rightarrow> []) out)"

definition playerPages :: "written \<Rightarrow> (string \<times> PlayerData) list" where
  "playerPages out =
     concat (map (\<lambda>w. case snd w of IndexHtml d \<Rightarrow> [] | PlayerHtml p \<Rightarrow> [(fst w, p)]) out)"

text \<open>The runs of the encoder in what the pass printed and ran: source and target.\<close>

definition runsOf :: "event list \<Rightarrow> (string list \<times> string list) list" where
  "runsOf log =
     concat (map (\<lambda>e. case e of RunFfmpeg gpu src tgt \<Rightarrow> [(src, tgt)] | _ \<Rightarrow> []) log)"

text \<open>The target the loop of the conversion pass builds for a source.\<close>

definition targetOf :: "string list \<Rightarrow> string list" where
  "targetOf videoPath = mp4PathOf videoPath (filepath_Ext (last videoPath))"



text \<open>A name that matches one of the patterns of \<^verbatim>\<open>Clean\<close>.\<close>

definition generatedName :: "string \<Rightarrow> bool" where
  "generatedName n = list_ex (\<lambda>p. filepath_Match p n = Inr True) patterns"

section \<open>Example inputs\<close>

text \<open>Three files with one base name.\<close>

definition exTree1 :: node where
  "exTree1 = Dir [(''a.avi'', File), (''a.mp4'', File), (''a.webm'', File)]"

text \<open>One video three directories below the root.\<close>

definition exTree2 :: node where
  "exTree2 = Dir [(''a'', Dir [(''b'', Dir [(''c'', Dir [(''video.mp4'', File)])])])]"

text \<open>Three videos in the root, not in the order of their names.\<close>

definition exTree3 :: node where
  "exTree3 = Dir [(''c.mp4'', File), (''a.mp4'', File), (''b.webm'', File)]"

text \<open>
  Thirteen videos in the root. The walk finds \<open>f.mp4\<close> before \<open>f.webm\<close>, which have the
  same display name, and \<open>k-2.mp4\<close> before \<open>k.mp4\<close>, whose display names are in the other
  order.
\<close>

definition exTree9 :: node where
  "exTree9 = Dir [(''a.mp4'', File), (''b.mp4'', File), (''c.mp4'', File), (''d.mp4'', File),
                  (''e.mp4'', File), (''f.mp4'', File), (''f.webm'', File), (''g.mp4'', File),
                  (''h.mp4'', File), (''i.mp4'', File), (''j.mp4'', File), (''k-2.mp4'', File),
                  (''k.mp4'', File)]"

text \<open>Two subdirectories with a video each and three videos in the root.\<close>

definition exTree4 :: node where
  "exTree4 = Dir [(''z'', Dir [(''v.mp4'', File)]), (''m'', Dir [(''w.mp4'', File)]),
                  (''c.mp4'', File), (''B.mp4'', File), (''a.mp4'', File)]"

text \<open>A video in the root and one to convert in a subdirectory.\<close>

definition exTree5 :: node where
  "exTree5 = Dir [(''a.mp4'', File), (''sub'', Dir [(''b.mkv'', File)])]"

text \<open>An encoder that is found and always ends well.\<close>

definition okConv :: ConvEnv where
  "okConv = \<lparr> lookPathFfmpeg = True, checkNvidiaGPUOk = True, ffmpeg = (\<lambda>gpu src tgt root. Encoded) \<rparr>"

text \<open>A video to convert whose extension is in upper case.\<close>

definition exTree6 :: node where
  "exTree6 = Dir [(''a.AVI'', File)]"

text \<open>An encoder that fails on \<open>b.mkv\<close>, leaving a partial file, and ends well otherwise.\<close>

definition failConv :: ConvEnv where
  "failConv = \<lparr> lookPathFfmpeg = True, checkNvidiaGPUOk = True,
       ffmpeg = (\<lambda>gpu src tgt root. if last src = ''b.mkv'' then Failed ''exit status 1'' True else Encoded) \<rparr>"

text \<open>Three videos to convert.\<close>

definition exTree7 :: node where
  "exTree7 = Dir [(''a.avi'', File), (''b.mkv'', File), (''c.mov'', File)]"



text \<open>A root whose name has a bracket in it, beside a directory that the name matches as a pattern.\<close>

definition exFs11 :: node where
  "exFs11 =
     Dir [(''Movies [2020]'', Dir [(''a.mp4'', File), (''index.html'', File), (''player_a.html'', File)]),
          (''Movies 2'', Dir [(''b.mp4'', File), (''index.html'', File), (''player_b.html'', File)])]"

section \<open>Properties of the scan\<close>

text \<open>
  C10. When the base name of the scan root begins with a dot, the callback of the scan
  returns \<^verbatim>\<open>SkipDir\<close> on the root itself: the scan ends without an error and with an
  empty catalog, whatever the directory holds, and \<^verbatim>\<open>Generate\<close> returns the error that no
  videos were found. The root is a directory that can be read and the two templates
  parse (the parse errors come first in \<^verbatim>\<open>Generate\<close>).
\<close>

theorem hidden_root_no_videos:
  assumes "hasPrefix (os_basename dir) ''.''"
    and "parseIndexOk env" and "parsePlayerOk env"
  shows "scanVideos (Dir es) (New dir) = (New dir, None)
       \<and> Generate env (Dir es) (New dir) = ((New dir, []), Some (NoVideosFound dir))"
proof -
  have root: "rootDir (New dir) = dir" and none: "videos (New dir) = []"
    by (simp_all add: New_def)
  have cb: "scanVideos_fn (Dir es) [] (os_basename dir) True None (New dir) = (New dir, SkipDir)"
    using assms(1) by (simp add: scanVideos_fn_def)
  have scan: "scanVideos (Dir es) (New dir) = (New dir, None)"
    by (simp add: scanVideos_def filepath_Walk_def root cb)
  show ?thesis
    using assms(2,3) by (simp add: scan Generate_def none root)
qed

theorem hidden_root_no_videos_witness:
  "hasPrefix (os_basename ''.'') ''.'' \<and> parseIndexOk stableEnv \<and> parsePlayerOk stableEnv
   \<and> scanVideos (Dir [(''a.mp4'', File), (''sub'', Dir [(''b.mkv'', File)])]) (New ''.'')
       = (New ''.'', None)
   \<and> Generate stableEnv (Dir [(''a.mp4'', File), (''sub'', Dir [(''b.mkv'', File)])]) (New ''.'')
       = ((New ''.'', []), Some (NoVideosFound ''.''))"
proof -
  have h: "hasPrefix (os_basename ''.'') ''.''"
    by (simp add: hasPrefix_def os_basename_def)
  have p: "parseIndexOk stableEnv" "parsePlayerOk stableEnv"
    by (simp_all add: stableEnv_def)
  show ?thesis
    using h p hidden_root_no_videos [OF h p, of "[(''a.mp4'', File), (''sub'', Dir [(''b.mkv'', File)])]"]
    by simp
qed

section \<open>Lemmas on strings and paths\<close>

lemma replaceSep_noSep: "sep \<notin> set n \<Longrightarrow> replaceSep n = n"
  by (induction n) (auto simp: replaceSep_def)

lemma replaceSep_append: "replaceSep (a @ b) = replaceSep a @ replaceSep b"
  by (simp add: replaceSep_def)

lemma replaceSep_joinPath:
  "segs \<noteq> [] \<Longrightarrow> \<forall>n\<in>set segs. sep \<notin> set n \<Longrightarrow> replaceSep (joinPath segs) = joinUnderscore segs"
proof (induction segs rule: joinPath.induct)
  case 1
  then show ?case by simp
next
  case (2 n)
  then show ?case by (simp add: replaceSep_noSep)
next
  case (3 n v va)
  then show ?case
    by (simp add: replaceSep_append replaceSep_noSep) (simp add: replaceSep_def)
qed

lemma joinPath_nonempty: "segs \<noteq> [] \<Longrightarrow> \<forall>n\<in>set segs. n \<noteq> [] \<Longrightarrow> joinPath segs \<noteq> []"
  by (induction segs rule: joinPath.induct) auto

lemma splitSep_nonempty: "splitSep s \<noteq> []"
  by (induction s) (auto split: list.splits)

lemma splitSep_noSep: "sep \<notin> set n \<Longrightarrow> splitSep n = [n]"
  by (induction n) auto

lemma splitSep_append_sep: "splitSep (x @ sep # y) = splitSep x @ splitSep y"
proof (induction x)
  case Nil
  then show ?case by simp
next
  case (Cons c x)
  then show ?case using splitSep_nonempty[of x]
    by (auto split: list.splits)
qed

section \<open>The walk with a callback of the shared shape\<close>

lemma reach_Dir:
  assumes "distinct (map fst es)"
  shows "{q. reach name (Dir es) q} = (if hidden name then {} else reachIn es)"
proof -
  have "reach name (Dir es) q \<longleftrightarrow> (\<not> hidden name \<and> q \<in> reachIn es)" for q
  proof (cases q)
    case Nil
    then show ?thesis by (auto simp: reachIn_def)
  next
    case (Cons n q')
    have "reach name (Dir es) (n # q') \<longleftrightarrow> (\<not> hidden name \<and> (\<exists>c. map_of es n = Some c \<and> reach n c q'))"
      by (auto split: option.splits)
    also have "\<dots> \<longleftrightarrow> (\<not> hidden name \<and> (\<exists>c. (n, c) \<in> set es \<and> reach n c q'))"
      using map_of_eq_Some_iff[OF assms] by simp
    finally show ?thesis using Cons by (auto simp: reachIn_def)
  qed
  then show ?thesis by auto
qed

lemma reachIn_Cons:
  "reachIn ((n, nd) # rest) = (Cons n) ` {q. reach n nd q} \<union> reachIn rest"
  by (auto simp: reachIn_def)

lemma reachIn_heads: "p \<in> reachIn es \<Longrightarrow> p \<noteq> [] \<and> hd p \<in> fst ` set es"
  by (force simp: reachIn_def)

lemma walk_fileVisitor_aux:
  fixes h :: "string list \<Rightarrow> string \<Rightarrow> 's \<Rightarrow> 's"
  shows "fn = fileVisitor h \<longrightarrow> wf_node nd \<longrightarrow>
      (\<forall>st' r. walk fn path name nd st = (st', r) \<longrightarrow>
        (\<exists>qs. st' = fold (\<lambda>q. h (path @ q) (lastName name q)) qs st \<and> distinct qs
            \<and> set qs \<subseteq> {q. reach name nd q}
            \<and> ((\<forall>e. r \<noteq> Err e) \<longrightarrow> {q. reach name nd q} \<subseteq> set qs)
            \<and> (r = SkipDir \<longrightarrow> isDir nd)))"
    and "fn = fileVisitor h \<longrightarrow> distinct (map fst es) \<longrightarrow> list_all (\<lambda>e. wf_node (snd e)) es \<longrightarrow>
      (\<forall>st' r. walkNames fn path es st = (st', r) \<longrightarrow>
        (\<exists>qs. st' = fold (\<lambda>q. h (path @ q) (last q)) qs st \<and> distinct qs
            \<and> set qs \<subseteq> reachIn es
            \<and> ((\<forall>e. r \<noteq> Err e) \<longrightarrow> reachIn es \<subseteq> set qs)
            \<and> r \<noteq> SkipDir))"
proof (induction fn path name nd st and fn path es st rule: walk_walkNames.induct)
  case (1 fn path name st)
  show ?case
  proof (intro impI allI)
    assume fn: "fn = fileVisitor h"
    fix st' r assume w: "walk fn path name File st = (st', r)"
    then have "st' = h path name st" "r = Continue"
      by (auto simp: fn fileVisitor_def)
    then show "\<exists>qs. st' = fold (\<lambda>q. h (path @ q) (lastName name q)) qs st \<and> distinct qs
            \<and> set qs \<subseteq> {q. reach name File q}
            \<and> ((\<forall>e. r \<noteq> Err e) \<longrightarrow> {q. reach name File q} \<subseteq> set qs)
            \<and> (r = SkipDir \<longrightarrow> isDir File)"
      by (intro exI[of _ "[[]]"]) (auto simp: lastName_def)
  qed
next
  case (2 fn path name em st)
  show ?case
  proof (intro impI allI)
    assume fn: "fn = fileVisitor h"
    fix st' r assume w: "walk fn path name (Unreadable em) st = (st', r)"
    then have "st' = st" "r = Err (ReadDirError path)"
      by (auto simp: fn fileVisitor_def)
    then show "\<exists>qs. st' = fold (\<lambda>q. h (path @ q) (lastName name q)) qs st \<and> distinct qs
            \<and> set qs \<subseteq> {q. reach name (Unreadable em) q}
            \<and> ((\<forall>e. r \<noteq> Err e) \<longrightarrow> {q. reach name (Unreadable em) q} \<subseteq> set qs)
            \<and> (r = SkipDir \<longrightarrow> isDir (Unreadable em))"
      by (intro exI[of _ "[]"]) auto
  qed
next
  case (3 fn path name es st)
  show ?case
  proof (intro impI allI)
    assume fn: "fn = fileVisitor h" and wf: "wf_node (Dir es)"
    fix st' r assume w: "walk fn path name (Dir es) st = (st', r)"
    from wf have d: "distinct (map fst es)" and la: "list_all (\<lambda>e. wf_node (snd e)) es"
      by (auto simp: list_all_iff)
    have ds: "distinct (map fst (sort_key fst es))"
      using d by (metis distinct_map distinct_sort set_sort)
    have las: "list_all (\<lambda>e. wf_node (snd e)) (sort_key fst es)"
      using la by (simp add: list_all_iff)
    have rs: "reachIn (sort_key fst es) = reachIn es" by (simp add: reachIn_def)
    show "\<exists>qs. st' = fold (\<lambda>q. h (path @ q) (lastName name q)) qs st \<and> distinct qs
            \<and> set qs \<subseteq> {q. reach name (Dir es) q}
            \<and> ((\<forall>e. r \<noteq> Err e) \<longrightarrow> {q. reach name (Dir es) q} \<subseteq> set qs)
            \<and> (r = SkipDir \<longrightarrow> isDir (Dir es))"
    proof (cases "hidden name")
      case True
      then have "st' = st" using w by (auto simp: fn fileVisitor_def)
      then show ?thesis using True d
        by (intro exI[of _ "[]"]) (simp add: reach_Dir)
    next
      case False
      then have cb: "fn path name True None st = (st, Continue)"
        by (simp add: fn fileVisitor_def)
      with w have wn: "walkNames fn path (sort_key fst es) st = (st', r)" by simp
      from 3[OF cb[symmetric] refl] fn ds las wn
      obtain qs where qs: "st' = fold (\<lambda>q. h (path @ q) (last q)) qs st" "distinct qs"
          "set qs \<subseteq> reachIn es" "(\<forall>e. r \<noteq> Err e) \<longrightarrow> reachIn es \<subseteq> set qs" "r \<noteq> SkipDir"
        unfolding rs by blast
      have "\<forall>q\<in>set qs. q \<noteq> []" using qs(3) reachIn_heads by blast
      then have "fold (\<lambda>q. h (path @ q) (last q)) qs st = fold (\<lambda>q. h (path @ q) (lastName name q)) qs st"
        by (intro fold_cong) (auto simp: lastName_def)
      with qs False d show ?thesis
        by (intro exI[of _ qs]) (simp add: reach_Dir)
    qed
  qed
next
  case (4 fn path st)
  show ?case by (auto simp: reachIn_def)
next
  case (5 fn path n nd rest st)
  show ?case
  proof (intro impI allI)
    assume fn: "fn = fileVisitor h" and d: "distinct (map fst ((n, nd) # rest))"
      and la: "list_all (\<lambda>e. wf_node (snd e)) ((n, nd) # rest)"
    fix st' r assume w: "walkNames fn path ((n, nd) # rest) st = (st', r)"
    obtain st1 r1 where w1: "walk fn (path @ [n]) n nd st = (st1, r1)" by (cases "walk fn (path @ [n]) n nd st")
    from 5(1) fn la w1 obtain qs1 where qs1:
      "st1 = fold (\<lambda>q. h ((path @ [n]) @ q) (lastName n q)) qs1 st" "distinct qs1"
      "set qs1 \<subseteq> {q. reach n nd q}" "(\<forall>e. r1 \<noteq> Err e) \<longrightarrow> {q. reach n nd q} \<subseteq> set qs1"
      "r1 = SkipDir \<longrightarrow> isDir nd"
      by auto
    have st1: "st1 = fold (\<lambda>q. h (path @ q) (last q)) (map (Cons n) qs1) st"
      unfolding qs1(1) fold_map by (intro fold_cong) (auto simp: lastName_def)
    have dr: "distinct (map fst rest)" "list_all (\<lambda>e. wf_node (snd e)) rest" "n \<notin> fst ` set rest"
      using d la by auto
    show "\<exists>qs. st' = fold (\<lambda>q. h (path @ q) (last q)) qs st \<and> distinct qs
            \<and> set qs \<subseteq> reachIn ((n, nd) # rest)
            \<and> ((\<forall>e. r \<noteq> Err e) \<longrightarrow> reachIn ((n, nd) # rest) \<subseteq> set qs)
            \<and> r \<noteq> SkipDir"
    proof (cases "\<exists>e. r1 = Err e")
      case True
      then obtain e where e: "r1 = Err e" by blast
      with w w1 have "st' = st1" "r = Err e" by auto
      then show ?thesis using st1 qs1
        by (intro exI[of _ "map (Cons n) qs1"]) (auto simp: reachIn_Cons distinct_map)
    next
      case False
      then have c: "r1 = Continue \<or> (r1 = SkipDir \<and> isDir nd)"
        using qs1(5) by (cases r1) auto
      with w w1 have wr: "walkNames fn path rest st1 = (st', r)" by auto
      have "\<exists>qs. st' = fold (\<lambda>q. h (path @ q) (last q)) qs st1 \<and> distinct qs
            \<and> set qs \<subseteq> reachIn rest
            \<and> ((\<forall>e. r \<noteq> Err e) \<longrightarrow> reachIn rest \<subseteq> set qs)
            \<and> r \<noteq> SkipDir"
        using c
      proof
        assume "r1 = Continue"
        from 5(2)[OF w1[symmetric] this] fn dr wr show ?thesis by blast
      next
        assume "r1 = SkipDir \<and> isDir nd"
        then have "r1 = SkipDir" "isDir nd" by auto
        from 5(3)[OF w1[symmetric] this] fn dr wr show ?thesis by blast
      qed
      then obtain qs2 where qs2: "st' = fold (\<lambda>q. h (path @ q) (last q)) qs2 st1" "distinct qs2"
          "set qs2 \<subseteq> reachIn rest" "(\<forall>e. r \<noteq> Err e) \<longrightarrow> reachIn rest \<subseteq> set qs2" "r \<noteq> SkipDir"
        by blast
      have disj: "set (map (Cons n) qs1) \<inter> set qs2 = {}"
      proof -
        have "hd p \<noteq> n" if "p \<in> set qs2" for p
          using that qs2(3) reachIn_heads dr(3) by blast
        then show ?thesis by force
      qed
      have full: "{q. reach n nd q} \<subseteq> set qs1" using qs1(4) False by blast
      show ?thesis
        using qs2 st1 qs1(2,3) disj full
        by (intro exI[of _ "map (Cons n) qs1 @ qs2"]) (auto simp: reachIn_Cons distinct_map)
    qed
  qed
qed

lemma walk_fileVisitor_root:
  assumes "filepath_Walk (fileVisitor h) rootName (Dir es) st = (st', res)"
    and "wf_node (Dir es)"
  shows "\<exists>qs. st' = fold (\<lambda>q. h q (last q)) qs st \<and> distinct qs
           \<and> set qs \<subseteq> {q. reach (os_basename rootName) (Dir es) q}
           \<and> (res = None \<longrightarrow> set qs = {q. reach (os_basename rootName) (Dir es) q})"
proof -
  obtain r where w: "walk (fileVisitor h) [] (os_basename rootName) (Dir es) st = (st', r)"
    and res: "res = None \<longleftrightarrow> (\<forall>e. r \<noteq> Err e)"
    using assms(1) unfolding filepath_Walk_def
    by (cases "walk (fileVisitor h) [] (os_basename rootName) (Dir es) st";
        cases "snd (walk (fileVisitor h) [] (os_basename rootName) (Dir es) st)") auto
  from walk_fileVisitor_aux(1)[of "fileVisitor h" h "Dir es" "[]" "os_basename rootName" st] assms(2) w
  obtain qs where qs: "st' = fold (\<lambda>q. h ([] @ q) (lastName (os_basename rootName) q)) qs st"
      "distinct qs" "set qs \<subseteq> {q. reach (os_basename rootName) (Dir es) q}"
      "(\<forall>e. r \<noteq> Err e) \<longrightarrow> {q. reach (os_basename rootName) (Dir es) q} \<subseteq> set qs"
    by blast
  have "\<forall>q\<in>set qs. q \<noteq> []" using qs(3) by auto
  then have "fold (\<lambda>q. h ([] @ q) (lastName (os_basename rootName) q)) qs st = fold (\<lambda>q. h q (last q)) qs st"
    by (intro fold_cong) (auto simp: lastName_def)
  with qs res show ?thesis by (intro exI[of _ qs]) auto
qed

lemma reach_valid:
  "wf_node nd \<Longrightarrow> reach name nd q \<Longrightarrow> \<forall>n\<in>set q. validName n"
proof (induction q arbitrary: name nd)
  case Nil
  then show ?case by simp
next
  case (Cons n q)
  then obtain es where nd: "nd = Dir es" by (cases nd) auto
  with Cons.prems obtain c where c: "map_of es n = Some c" "reach n c q"
    by (auto split: option.splits)
  then have "(n, c) \<in> set es" by (auto dest: map_of_SomeD)
  with Cons.prems(1) nd have "validName n" "wf_node c" by (auto simp: list_all_iff)
  with Cons.IH[OF _ c(2)] show ?case by simp
qed

lemma joinPath_snoc: "cs \<noteq> [] \<Longrightarrow> joinPath (cs @ [n]) = joinPath cs @ sep # n"
  by (induction cs rule: joinPath.induct) auto

lemma filepath_Dir_sep:
  assumes "sep \<notin> set n"
  shows "filepath_Dir (x @ sep # n) = x"
proof -
  have "dropWhile (\<lambda>c. c \<noteq> sep) (rev n @ sep # rev x) = dropWhile (\<lambda>c. c \<noteq> sep) (sep # rev x)"
    using assms by (intro dropWhile_append2) auto
  then show ?thesis by (simp add: filepath_Dir_def)
qed

lemma filepath_Dir_noSep: "sep \<notin> set n \<Longrightarrow> filepath_Dir n = ''.''"
  by (simp add: filepath_Dir_def)

lemma joinPath_not_dot:
  assumes "cs \<noteq> []" "\<forall>n\<in>set cs. validName n"
  shows "joinPath cs \<noteq> ''.''"
proof (cases cs rule: rev_cases)
  case Nil
  with assms show ?thesis by simp
next
  case (snoc ds n)
  show ?thesis
  proof (cases "ds = []")
    case True
    with snoc assms show ?thesis by (auto simp: validName_def)
  next
    case False
    then have "sep \<in> set (joinPath cs)" using snoc by (simp add: joinPath_snoc)
    then show ?thesis by (auto simp: sep_def)
  qed
qed

lemma filepath_Dir_joinPath:
  assumes "q \<noteq> []" "\<forall>n\<in>set q. validName n"
  shows "(let d = filepath_Dir (joinPath q) in if d = ''.'' then [] else d) = dirString (butlast q)"
proof (cases q rule: rev_cases)
  case Nil
  with assms show ?thesis by simp
next
  case (snoc ds n)
  then have n: "sep \<notin> set n" using assms by (auto simp: validName_def)
  show ?thesis
  proof (cases "ds = []")
    case True
    with snoc n show ?thesis by (simp add: filepath_Dir_noSep dirString_def)
  next
    case False
    then have "joinPath ds \<noteq> ''.''" using joinPath_not_dot[of ds] assms snoc by auto
    with False snoc n show ?thesis
      by (simp add: joinPath_snoc filepath_Dir_sep dirString_def)
  qed
qed

lemma scanVideos_fn_shape:
  "scanVideos_fn root = fileVisitor (\<lambda>path name g. fst (scanVideos_fn root path name False None g))"
  by (auto simp: fun_eq_iff scanVideos_fn_def fileVisitor_def hidden_def Let_def split: option.splits)

lemma scanVideos_fn_file:
  assumes "q \<noteq> []" "\<forall>n\<in>set q. validName n"
  shows "fst (scanVideos_fn root q (last q) False None g)
       = (if accepted root q then addVideo (videoOf q) g else g)"
proof -
  have d: "(let d = filepath_Dir (joinPath q) in if d = ''.'' then [] else d) = dirString (butlast q)"
    by (rule filepath_Dir_joinPath[OF assms])
  then have d': "(if filepath_Dir (joinPath q) = ''.'' then [] else filepath_Dir (joinPath q)) = dirString (butlast q)"
    by (simp add: Let_def)
  show ?thesis
    by (auto simp: scanVideos_fn_def accepted_def Let_def d' addVideo_def videoOf_def)
qed

lemma dirTree_put_keys:
  "map fst (dirTree_put m k v) = (if k \<in> fst ` set m then map fst m else map fst m @ [k])"
  by (induction m k v rule: dirTree_put.induct) auto

lemma dirTree_put_map_of: "map_of (dirTree_put m k v) = (map_of m)(k \<mapsto> v)"
  by (induction m k v rule: dirTree_put.induct) (auto simp: fun_eq_iff)

lemma dirTree_get_put: "dirTree_get (dirTree_put m k v) d = (if d = k then v else dirTree_get m d)"
  by (simp add: dirTree_get_def dirTree_put_map_of)

lemma grouped_addVideo:
  assumes "grouped (videos g) (dirTree g)"
  shows "grouped (videos (addVideo v g)) (dirTree (addVideo v g))"
proof -
  have k: "fst ` set (dirTree_put m k x) = insert k (fst ` set m)" for m k x
    using dirTree_put_keys[of m k x] by (metis (no_types, lifting) insert_absorb list.set_map set_append
        list.simps(15) Un_insert_right sup_bot.right_neutral empty_set)
  have dd: "distinct (map fst (dirTree_put m k x))" if "distinct (map fst m)" for m k x
    using that by (auto simp: dirTree_put_keys)
  show ?thesis
    using assms unfolding grouped_def addVideo_def
    by (auto simp: dirTree_get_put k dd)
qed

lemma addVideo_fields [simp]:
  "videos (addVideo v g) = videos g @ [v]"
  "rootDir (addVideo v g) = rootDir g"
  "outputDir (addVideo v g) = outputDir g"
  "customTitle (addVideo v g) = customTitle g"
  by (simp_all add: addVideo_def)

lemma fold_addVideo_videos:
  "videos (fold (\<lambda>q g. if accepted root q then addVideo (videoOf q) g else g) qs g)
     = videos g @ map videoOf (filter (accepted root) qs)"
  by (induction qs arbitrary: g) auto

lemma fold_addVideo_rootDir:
  "rootDir (fold (\<lambda>q g. if accepted root q then addVideo (videoOf q) g else g) qs g) = rootDir g"
  by (induction qs arbitrary: g) auto

lemma fold_addVideo_customTitle:
  "customTitle (fold (\<lambda>q g. if accepted root q then addVideo (videoOf q) g else g) qs g) = customTitle g"
  by (induction qs arbitrary: g) auto

lemma fold_addVideo_grouped:
  "grouped (videos g) (dirTree g) \<Longrightarrow>
     grouped (videos (fold (\<lambda>q g. if accepted root q then addVideo (videoOf q) g else g) qs g))
             (dirTree (fold (\<lambda>q g. if accepted root q then addVideo (videoOf q) g else g) qs g))"
proof (induction qs arbitrary: g)
  case Nil
  then show ?case by simp
next
  case (Cons q qs)
  show ?case
  proof (cases "accepted root q")
    case True
    have "grouped (videos (addVideo (videoOf q) g)) (dirTree (addVideo (videoOf q) g))"
      by (rule grouped_addVideo[OF Cons.prems])
    from Cons.IH[OF this] True show ?thesis by simp
  next
    case False
    with Cons.IH[OF Cons.prems] show ?thesis by simp
  qed
qed

lemma scan_result:
  assumes scan: "scanVideos (Dir es) (New dir) = (g, res)"
    and wf: "wf_node (Dir es)"
  shows "\<exists>qs. distinct qs
           \<and> set qs \<subseteq> {q. reach (os_basename dir) (Dir es) q \<and> accepted (Dir es) q}
           \<and> (res = None \<longrightarrow> set qs = {q. reach (os_basename dir) (Dir es) q \<and> accepted (Dir es) q})
           \<and> videos g = map videoOf qs
           \<and> grouped (videos g) (dirTree g)
           \<and> rootDir g = dir \<and> customTitle g = ''Videos''"
proof -
  let ?h = "\<lambda>path name g. fst (scanVideos_fn (Dir es) path name False None g)"
  let ?k = "\<lambda>q g. if accepted (Dir es) q then addVideo (videoOf q) g else g"
  have "filepath_Walk (fileVisitor ?h) dir (Dir es) (New dir) = (g, res)"
    using scan scanVideos_fn_shape[of "Dir es"] by (simp add: scanVideos_def New_def)
  from walk_fileVisitor_root[OF this wf]
  obtain qs where qs: "g = fold (\<lambda>q. ?h q (last q)) qs (New dir)" "distinct qs"
      "set qs \<subseteq> {q. reach (os_basename dir) (Dir es) q}"
      "res = None \<longrightarrow> set qs = {q. reach (os_basename dir) (Dir es) q}"
    by blast
  have val: "\<forall>q\<in>set qs. q \<noteq> [] \<and> (\<forall>n\<in>set q. validName n)"
    using qs(3) reach_valid[OF wf] by auto
  have "fold (\<lambda>q. ?h q (last q)) qs (New dir) = fold ?k qs (New dir)"
    using val by (intro fold_cong) (auto simp: scanVideos_fn_file)
  then have g: "g = fold ?k qs (New dir)" using qs(1) by simp
  have g0: "grouped (videos (New dir)) (dirTree (New dir))"
    by (simp add: grouped_def New_def dirTree_get_def)
  have v: "videos g = map videoOf (filter (accepted (Dir es)) qs)"
    unfolding g fold_addVideo_videos by (simp add: New_def)
  have gr: "grouped (videos g) (dirTree g)"
    unfolding g by (rule fold_addVideo_grouped[OF g0])
  have rd: "rootDir g = dir" and ct: "customTitle g = ''Videos''"
    unfolding g fold_addVideo_rootDir fold_addVideo_customTitle by (simp_all add: New_def)
  show ?thesis
    using v gr rd ct qs(2,3,4)
    by (intro exI[of _ "filter (accepted (Dir es)) qs"]) auto
qed

section \<open>The catalog and converted files\<close>

lemma splitSep_joinPath:
  "p \<noteq> [] \<Longrightarrow> \<forall>n\<in>set p. sep \<notin> set n \<Longrightarrow> splitSep (joinPath p) = p"
proof (induction p rule: joinPath.induct)
  case 1
  then show ?case by simp
next
  case (2 n)
  then show ?case by (simp add: splitSep_noSep)
next
  case (3 n m ns)
  then show ?case by (simp add: splitSep_append_sep splitSep_noSep)
qed

lemma joinPath_inj:
  assumes "p \<noteq> []" "q \<noteq> []" "\<forall>n\<in>set p. sep \<notin> set n" "\<forall>n\<in>set q. sep \<notin> set n"
    and "joinPath p = joinPath q"
  shows "p = q"
proof -
  have "p = splitSep (joinPath p)" by (rule splitSep_joinPath[OF assms(1,3), symmetric])
  also have "\<dots> = splitSep (joinPath q)" by (simp only: assms(5))
  also have "\<dots> = q" by (rule splitSep_joinPath[OF assms(2,4)])
  finally show ?thesis .
qed

lemma extScan_dot:
  "CHR ''.'' \<notin> set xs \<Longrightarrow> sep \<notin> set xs \<Longrightarrow> extScan (xs @ CHR ''.'' # ys) acc = CHR ''.'' # rev xs @ acc"
  by (induction xs arbitrary: acc) (auto simp: sep_def)

lemma filepath_Ext_append:
  assumes "CHR ''.'' \<notin> set r" "sep \<notin> set r"
  shows "filepath_Ext (base @ CHR ''.'' # r) = CHR ''.'' # r"
  using extScan_dot[of "rev r" "rev base" "[]"] assms by (simp add: filepath_Ext_def)

lemma needsConversion_shape:
  assumes "needsConversion e"
  shows "filepath_Ext (base @ e) = e \<and> toLower e = e \<and> e \<noteq> ''.mp4''"
proof -
  from assms consider "e = ''.mkv''" | "e = ''.avi''" | "e = ''.mov''" | "e = ''.wmv''" | "e = ''.flv''"
    by (auto simp: needsConversion_def)
  then show ?thesis
    by cases (simp_all add: filepath_Ext_append sep_def lowerChar_def)
qed

lemma mp4_shape:
  "filepath_Ext (base @ ''.mp4'') = ''.mp4'' \<and> toLower ''.mp4'' = ''.mp4''
   \<and> videoExtensions ''.mp4'' \<and> \<not> needsConversion ''.mp4''"
  by (simp add: filepath_Ext_append sep_def lowerChar_def videoExtensions_def
      needsConversion_def)

lemma trimSuffix_append: "trimSuffix (base @ e) e = base"
  by (simp add: trimSuffix_def hasSuffix_def)

lemma mp4PathOf_snoc: "mp4PathOf (d @ [n]) ext = d @ [trimSuffix n ext @ ''.mp4'']"
  by (simp add: mp4PathOf_def)

lemma reach_sibling:
  "reach name nd (d @ [n]) \<Longrightarrow> os_Stat nd (d @ [n']) = Some File \<Longrightarrow> reach name nd (d @ [n'])"
proof (induction d arbitrary: name nd)
  case Nil
  then obtain es where nd: "nd = Dir es" by (cases nd) auto
  with Nil show ?case by (auto split: option.splits)
next
  case (Cons m d)
  then obtain es where nd: "nd = Dir es" by (cases nd) auto
  with Cons.prems obtain c where c: "map_of es m = Some c" "reach m c (d @ [n])" "\<not> hidden name"
    by (auto split: option.splits)
  with Cons.prems(2) nd have "os_Stat c (d @ [n']) = Some File" by simp
  from Cons.IH[OF c(2) this] c nd show ?case by simp
qed

lemma filter_eq_distinct: "distinct xs \<Longrightarrow> x \<in> set xs \<Longrightarrow> filter (\<lambda>y. y = x) xs = [x]"
proof (induction xs)
  case Nil
  then show ?case by simp
next
  case (Cons a xs)
  then show ?case by (cases "a = x") (auto simp: filter_empty_conv)
qed

text \<open>
  C1, as amended. A file the scan discovers whose name ends in one of the extensions that
  need conversion, written in lower case, is not in the catalog when a regular file with
  the same base name and the extension \<open>.mp4\<close> stands beside it; the catalog then has
  exactly one entry for that \<open>.mp4\<close> file, with the base name as display name, the
  extension \<open>.mp4\<close> and the same directory. (Files of the same base name with other
  playable extensions have entries of their own.)
\<close>

theorem converted_sibling_replaces_original:
  assumes "scanVideos (Dir es) (New dir) = (g, None)"
    and "wf_node (Dir es)"
    and "needsConversion e"
    and "reach (os_basename dir) (Dir es) (d @ [base @ e])"
    and "os_Stat (Dir es) (d @ [base @ ''.mp4'']) = Some File"
  shows "joinPath (d @ [base @ e]) \<notin> RelativePath ` set (videos g)
       \<and> filter (\<lambda>v. RelativePath v = joinPath (d @ [base @ ''.mp4''])) (videos g)
           = [\<lparr> Name = base, FileName = base @ ''.mp4'',
                RelativePath = joinPath (d @ [base @ ''.mp4'']), Extension = ''.mp4'',
                Directory = dirString d,
                PlayerPage = generatePlayerFileName (joinPath (d @ [base @ ''.mp4''])) \<rparr>]"
proof -
  let ?root = "Dir es" and ?p = "d @ [base @ e]" and ?p' = "d @ [base @ ''.mp4'']"
  from scan_result[OF assms(1,2)] obtain qs where qs: "distinct qs"
      "set qs = {q. reach (os_basename dir) ?root q \<and> accepted ?root q}"
      "videos g = map videoOf qs"
    by blast
  have valid: "q \<noteq> [] \<and> (\<forall>n\<in>set q. sep \<notin> set n)" if "reach (os_basename dir) ?root q" for q
  proof -
    have "q \<noteq> []" using that by (cases q) simp_all
    moreover have "\<forall>n\<in>set q. sep \<notin> set n"
      using reach_valid[OF assms(2) that] unfolding validName_def by blast
    ultimately show ?thesis by simp
  qed
  have e: "filepath_Ext (base @ e) = e" "toLower e = e"
    using needsConversion_shape[OF assms(3)] by auto
  have not_acc: "\<not> accepted ?root ?p"
    using assms(3,5) by (simp add: accepted_def e mp4PathOf_snoc trimSuffix_append)
  have r': "reach (os_basename dir) ?root ?p'"
    by (rule reach_sibling[OF assms(4,5)])
  have acc': "accepted ?root ?p'"
    using mp4_shape[of base] by (simp add: accepted_def)
  have in': "?p' \<in> set qs" using qs(2) r' acc' by simp
  have rel: "RelativePath (videoOf q) = joinPath q" for q by (simp add: videoOf_def)
  have first: "joinPath ?p \<notin> RelativePath ` set (videos g)"
  proof
    assume "joinPath ?p \<in> RelativePath ` set (videos g)"
    then obtain q where q: "q \<in> set qs" "joinPath q = joinPath ?p"
      unfolding qs(3) by (auto simp: rel)
    then have "reach (os_basename dir) ?root q" "accepted ?root q" using qs(2) by auto
    then have "q = ?p"
      using joinPath_inj[of q ?p] q(2) valid[of q] valid[OF assms(4)] by blast
    with \<open>accepted ?root q\<close> not_acc show False by simp
  qed
  have same: "(joinPath q = joinPath ?p') = (q = ?p')" if "q \<in> set qs" for q
  proof -
    have "reach (os_basename dir) ?root q" using that qs(2) by simp
    then show ?thesis
      using joinPath_inj[of q ?p'] valid[of q] valid[OF r'] by blast
  qed
  have "filter (\<lambda>v. RelativePath v = joinPath ?p') (videos g)
      = map videoOf (filter (\<lambda>q. joinPath q = joinPath ?p') qs)"
    unfolding qs(3) by (simp add: filter_map comp_def rel)
  also have "filter (\<lambda>q. joinPath q = joinPath ?p') qs = filter (\<lambda>q. q = ?p') qs"
    by (rule filter_cong) (auto simp: same)
  also have "\<dots> = [?p']" by (rule filter_eq_distinct[OF qs(1) in'])
  finally have "filter (\<lambda>v. RelativePath v = joinPath ?p') (videos g) = [videoOf ?p']" by simp
  moreover have "videoOf ?p' = \<lparr> Name = base, FileName = base @ ''.mp4'',
                RelativePath = joinPath ?p', Extension = ''.mp4'',
                Directory = dirString d,
                PlayerPage = generatePlayerFileName (joinPath ?p') \<rparr>"
    using mp4_shape[of base] trimSuffix_append[of base "''.mp4''"] by (simp add: videoOf_def)
  ultimately show ?thesis using first by simp
qed

text \<open>
  C1 as it is stated fails: beside \<open>a.avi\<close> and \<open>a.mp4\<close> a third file \<open>a.webm\<close> has the
  same base name, and the catalog has two entries for that base name, one of them with the
  extension \<open>.webm\<close>.
\<close>

theorem one_entry_per_base_name_counterexample:
  "scanVideos exTree1 (New ''videos'') =
     (\<lparr> rootDir = ''videos'', outputDir = ''videos'', customTitle = ''Videos'',
        videos = [\<lparr> Name = ''a'', FileName = ''a.mp4'', RelativePath = ''a.mp4'',
                    Extension = ''.mp4'', Directory = [], PlayerPage = ''player_a.html'' \<rparr>,
                  \<lparr> Name = ''a'', FileName = ''a.webm'', RelativePath = ''a.webm'',
                    Extension = ''.webm'', Directory = [], PlayerPage = ''player_a.html'' \<rparr>],
        dirTree = [([], [\<lparr> Name = ''a'', FileName = ''a.mp4'', RelativePath = ''a.mp4'',
                           Extension = ''.mp4'', Directory = [], PlayerPage = ''player_a.html'' \<rparr>,
                         \<lparr> Name = ''a'', FileName = ''a.webm'', RelativePath = ''a.webm'',
                           Extension = ''.webm'', Directory = [], PlayerPage = ''player_a.html'' \<rparr>])] \<rparr>,
      None)"
  by code_simp

theorem converted_sibling_replaces_original_witness:
  "snd (scanVideos exTree1 (New ''videos'')) = None
   \<and> wf_node exTree1
   \<and> needsConversion ''.avi''
   \<and> reach (os_basename ''videos'') exTree1 [''a.avi'']
   \<and> os_Stat exTree1 [''a.mp4''] = Some File
   \<and> ''a.avi'' \<notin> RelativePath ` set (videos (fst (scanVideos exTree1 (New ''videos''))))
   \<and> filter (\<lambda>v. RelativePath v = ''a.mp4'') (videos (fst (scanVideos exTree1 (New ''videos''))))
        = [\<lparr> Name = ''a'', FileName = ''a.mp4'', RelativePath = ''a.mp4'', Extension = ''.mp4'',
             Directory = [], PlayerPage = ''player_a.html'' \<rparr>]"
proof -
  have h0: "snd (scanVideos exTree1 (New ''videos'')) = None" by code_simp
  then have h1: "scanVideos (Dir [(''a.avi'', File), (''a.mp4'', File), (''a.webm'', File)]) (New ''videos'')
       = (fst (scanVideos exTree1 (New ''videos'')), None)"
    by (simp add: exTree1_def prod_eq_iff)
  have h2: "wf_node (Dir [(''a.avi'', File), (''a.mp4'', File), (''a.webm'', File)])"
    by (simp add: validName_def sep_def)
  have h3: "needsConversion ''.avi''" by (simp add: needsConversion_def)
  have h4: "reach (os_basename ''videos'') (Dir [(''a.avi'', File), (''a.mp4'', File), (''a.webm'', File)])
              ([] @ [''a'' @ ''.avi''])"
    by (simp add: hidden_def hasPrefix_def os_basename_def sep_def)
  have h5: "os_Stat (Dir [(''a.avi'', File), (''a.mp4'', File), (''a.webm'', File)])
              ([] @ [''a'' @ ''.mp4'']) = Some File"
    by simp
  have p: "generatePlayerFileName ''a.mp4'' = ''player_a.html''" by code_simp
  show ?thesis
    using converted_sibling_replaces_original [OF h1 h2 h3 h4 h5] h0 h2 h3 h4 h5
    by (simp add: exTree1_def dirString_def p)
qed

section \<open>File names of the listings\<close>

lemma generateIndexPage_written:
  assumes "generateIndexPage env dir (g, out) = ((g', out'), None)"
  shows "out' = out @ [(indexFileName dir, IndexHtml (indexDataOf env g dir))]
       \<and> g' = g\<lparr> dirTree := dirTree_sorted (dirTree g) dir (Videos (indexDataOf env g dir)) \<rparr>"
  using assms by (auto simp: generateIndexPage_def Let_def split: if_splits)

lemma indexFileName_segs:
  assumes "\<forall>n\<in>set segs. validName n"
  shows "indexFileName (dirString segs)
       = (if segs = [] then ''index.html'' else joinUnderscore segs @ ''_index.html'')"
proof (cases "segs = []")
  case True
  then show ?thesis by (simp add: indexFileName_def dirString_def)
next
  case False
  have "joinPath segs \<noteq> []" using False assms by (intro joinPath_nonempty) (auto simp: validName_def)
  moreover have "replaceSep (joinPath segs) = joinUnderscore segs"
    using False assms by (intro replaceSep_joinPath) (auto simp: validName_def)
  ultimately show ?thesis using False by (simp add: indexFileName_def dirString_def)
qed

text \<open>
  C5 as it is stated fails: the listing of the directory \<open>my dir\<close> is written as
  \<open>my dir_index.html\<close>, with the space kept, where the algorithm of the player file names
  gives \<open>my_dir_index.html\<close>.
\<close>

theorem listing_filename_counterexample:
  "map fst (snd (fst (generateIndexPage stableEnv ''my dir'' (New ''videos'', []))))
     = [''my dir_index.html'']
   \<and> spec_listingFileName [''my dir''] = ''my_dir_index.html''"
  by code_simp

text \<open>
  C5, as amended. The listing of a directory is written under the path of the directory
  with every separator replaced by an underscore and \<open>_index.html\<close> after it; no
  character is filtered out or changed besides. The listing of the root is \<open>index.html\<close>.
\<close>

theorem listing_filename_flattened:
  assumes "\<forall>n\<in>set segs. validName n"
    and "generateIndexPage env (dirString segs) (g, out) = ((g', out'), None)"
  shows "map fst out' = map fst out
           @ [if segs = [] then ''index.html'' else joinUnderscore segs @ ''_index.html'']"
  using generateIndexPage_written[OF assms(2)] indexFileName_segs[OF assms(1)] by simp

theorem listing_filename_flattened_witness:
  "validName ''my dir'' \<and> validName ''x.y''
   \<and> generateIndexPage stableEnv (dirString [''my dir'', ''x.y'']) (New ''videos'', [])
       = (fst (generateIndexPage stableEnv (dirString [''my dir'', ''x.y'']) (New ''videos'', [])), None)
   \<and> map fst (snd (fst (generateIndexPage stableEnv (dirString [''my dir'', ''x.y'']) (New ''videos'', []))))
       = [''my dir_x.y_index.html'']"
proof -
  have h1: "\<forall>n\<in>set [''my dir'', ''x.y'']. validName n"
    by (simp add: validName_def sep_def)
  have "snd (generateIndexPage stableEnv (dirString [''my dir'', ''x.y'']) (New ''videos'', [])) = None"
    by code_simp
  then have h2: "generateIndexPage stableEnv (dirString [''my dir'', ''x.y'']) (New ''videos'', [])
       = ((fst (fst (generateIndexPage stableEnv (dirString [''my dir'', ''x.y'']) (New ''videos'', []))),
           snd (fst (generateIndexPage stableEnv (dirString [''my dir'', ''x.y'']) (New ''videos'', [])))), None)"
    by (simp add: prod_eq_iff)
  show ?thesis
    using listing_filename_flattened [OF h1 h2] h1 h2 by simp
qed

section \<open>The pages of a run\<close>

lemma dirTree_sorted_keys: "map fst (dirTree_sorted m d vs) = map fst m"
  by (induction m) (auto simp: dirTree_sorted_def)

lemma dirTree_sorted_map_of:
  "map_of (dirTree_sorted m d vs) d'
     = (if d' = d then (if d \<in> fst ` set m then Some vs else None) else map_of m d')"
  by (induction m) (force simp: dirTree_sorted_def)+

lemma dirTree_get_sorted:
  "dirTree_get (dirTree_sorted m d vs) d'
     = (if d' = d \<and> d \<in> fst ` set m then vs else dirTree_get m d')"
proof (cases "d \<in> fst ` set m")
  case True
  then show ?thesis by (simp add: dirTree_get_def dirTree_sorted_map_of)
next
  case False
  then have "map_of m d = None" by (simp add: map_of_eq_None_iff)
  then show ?thesis using False by (simp add: dirTree_get_def dirTree_sorted_map_of)
qed

lemma dirTree_get_absent: "d \<notin> fst ` set m \<Longrightarrow> dirTree_get m d = []"
  by (simp add: dirTree_get_def map_of_eq_None_iff[THEN iffD2])

lemma sortsBy_Nil: "sortsBy lt srt \<Longrightarrow> srt [] = []"
  by (metis sortsBy_def mset_zero_iff)

lemma indexDataOf_Videos:
  "Videos (indexDataOf env g d) = sortSlice_v env (\<lambda>a b. Name a < Name b) (dirTree_get (dirTree g) d)"
  by (simp add: indexDataOf_def Let_def)

lemma indexDataOf_cong:
  assumes "map fst (dirTree g1) = map fst (dirTree g)"
    and "dirTree_get (dirTree g1) d = dirTree_get (dirTree g) d"
    and "customTitle g1 = customTitle g"
  shows "indexDataOf env g1 d = indexDataOf env g d"
  using assms by (simp add: indexDataOf_def Let_def)

lemma forEach_index:
  assumes "wf_env env" "distinct ds"
    and "forEach (generateIndexPage env) ds (g, out) = ((g', out'), None)"
  shows "out' = out @ map (\<lambda>d. (indexFileName d, IndexHtml (indexDataOf env g d))) ds
       \<and> videos g' = videos g \<and> map fst (dirTree g') = map fst (dirTree g)
       \<and> customTitle g' = customTitle g \<and> rootDir g' = rootDir g
       \<and> (\<forall>d. dirTree_get (dirTree g') d
              = (if d \<in> set ds then Videos (indexDataOf env g d) else dirTree_get (dirTree g) d))"
  using assms(2,3)
proof (induction ds arbitrary: g out)
  case Nil
  then show ?case by simp
next
  case (Cons d ds)
  let ?vs = "Videos (indexDataOf env g d)"
  let ?g1 = "g\<lparr> dirTree := dirTree_sorted (dirTree g) d ?vs \<rparr>"
  let ?out1 = "out @ [(indexFileName d, IndexHtml (indexDataOf env g d))]"
  obtain st1 r1 where s1: "generateIndexPage env d (g, out) = (st1, r1)"
    by (cases "generateIndexPage env d (g, out)")
  with Cons.prems(2) have r1: "r1 = None" and rest: "forEach (generateIndexPage env) ds st1 = ((g', out'), None)"
    by (cases r1; simp)+
  obtain g1 out1 where st1: "st1 = (g1, out1)" by (cases st1)
  from generateIndexPage_written[of env d g out g1 out1] s1 r1 st1
  have o1: "out1 = ?out1" and g1: "g1 = ?g1" by auto
  have vs: "?vs = sortSlice_v env (\<lambda>a b. Name a < Name b) (dirTree_get (dirTree g) d)"
    by (rule indexDataOf_Videos)
  have srt: "sortSlice_v env (\<lambda>a b. Name a < Name b) [] = []"
    using assms(1) sortsBy_Nil unfolding wf_env_def by blast
  have get1: "dirTree_get (dirTree ?g1) d' = (if d' = d then ?vs else dirTree_get (dirTree g) d')" for d'
    using srt by (auto simp: dirTree_get_sorted vs dirTree_get_absent)
  have keys1: "map fst (dirTree ?g1) = map fst (dirTree g)" by (simp add: dirTree_sorted_keys)
  from Cons.prems(1) have dd: "distinct ds" "d \<notin> set ds" by auto
  from Cons.IH[OF dd(1) rest[unfolded st1]]
  have ih: "out' = out1 @ map (\<lambda>d. (indexFileName d, IndexHtml (indexDataOf env g1 d))) ds"
    "videos g' = videos g1" "map fst (dirTree g') = map fst (dirTree g1)"
    "customTitle g' = customTitle g1" "rootDir g' = rootDir g1"
    "\<forall>d. dirTree_get (dirTree g') d
              = (if d \<in> set ds then Videos (indexDataOf env g1 d) else dirTree_get (dirTree g1) d)"
    by auto
  have same: "indexDataOf env g1 d' = indexDataOf env g d'" if "d' \<in> set ds" for d'
  proof -
    have "d' \<noteq> d" using that dd(2) by auto
    then show ?thesis unfolding g1
      by (intro indexDataOf_cong) (simp_all add: dirTree_sorted_keys dirTree_get_sorted)
  qed
  have m: "map (\<lambda>d. (indexFileName d, IndexHtml (indexDataOf env g1 d))) ds
         = map (\<lambda>d. (indexFileName d, IndexHtml (indexDataOf env g d))) ds"
    by (rule map_cong) (simp_all add: same)
  have "out' = out @ map (\<lambda>d. (indexFileName d, IndexHtml (indexDataOf env g d))) (d # ds)"
    using ih(1) o1 m by simp
  moreover have "videos g' = videos g" "map fst (dirTree g') = map fst (dirTree g)"
      "customTitle g' = customTitle g" "rootDir g' = rootDir g"
    using ih(2,3,4,5) keys1 unfolding g1 by simp_all
  moreover have "dirTree_get (dirTree g') x
        = (if x \<in> set (d # ds) then Videos (indexDataOf env g x) else dirTree_get (dirTree g) x)" for x
    using ih(6) same[of x] get1[of x] dd(2) unfolding g1[symmetric] by (auto simp: g1)
  ultimately show ?case by blast
qed

lemma forEach_player:
  assumes "forEach (generatePlayerPage env) vs (g, out) = ((g', out'), None)"
  shows "g' = g \<and> out' = out @ map (\<lambda>v. (PlayerPage v, PlayerHtml (playerDataOf env g v))) vs"
  using assms
proof (induction vs arbitrary: out)
  case Nil
  then show ?case by simp
next
  case (Cons v vs)
  obtain st1 r1 where s1: "generatePlayerPage env v (g, out) = (st1, r1)"
    by (cases "generatePlayerPage env v (g, out)")
  with Cons.prems have r1: "r1 = None" and rest: "forEach (generatePlayerPage env) vs st1 = ((g', out'), None)"
    by (cases r1; simp)+
  from s1 r1 have st1: "st1 = (g, out @ [(PlayerPage v, PlayerHtml (playerDataOf env g v))])"
    by (auto simp: generatePlayerPage_def Let_def split: if_splits)
  from Cons.IH[OF rest[unfolded st1]] show ?case by simp
qed

section \<open>The directories that get a listing\<close>

lemma joinPath_splitSep: "joinPath (splitSep a) = a"
proof (induction a)
  case Nil
  then show ?case by simp
next
  case (Cons c a)
  obtain p ps where s: "splitSep a = p # ps" using splitSep_nonempty[of a] by (cases "splitSep a") auto
  show ?case
  proof (cases "c = sep")
    case True
    then show ?thesis using Cons s by simp
  next
    case False
    then show ?thesis using Cons s by (cases ps) auto
  qed
qed

lemma splitSep_elems: "p \<in> set (splitSep s) \<Longrightarrow> sep \<notin> set p"
proof (induction s arbitrary: p)
  case Nil
  then show ?case by simp
next
  case (Cons c s)
  then show ?case by (auto split: if_splits list.splits)
qed

lemma pathsAbove_Nil: "pathsAbove [] = {}"
  by (simp add: pathsAbove_def)

lemma pathsAbove_snoc: "pathsAbove (ds @ [n]) = insert (joinPath (ds @ [n])) (pathsAbove ds)"
proof -
  have "(\<exists>r. ds @ [n] = p @ r) \<longleftrightarrow> (p = ds @ [n] \<or> (\<exists>r. ds = p @ r))" for p
  proof
    assume "\<exists>r. ds @ [n] = p @ r"
    then obtain r where r: "ds @ [n] = p @ r" by blast
    show "p = ds @ [n] \<or> (\<exists>r. ds = p @ r)"
    proof (cases r rule: rev_cases)
      case Nil
      with r show ?thesis by simp
    next
      case (snoc r' x)
      with r have "ds = p @ r'" by simp
      then show ?thesis by blast
    qed
  next
    assume "p = ds @ [n] \<or> (\<exists>r. ds = p @ r)"
    then show "\<exists>r. ds @ [n] = p @ r" by auto
  qed
  then show ?thesis by (auto simp: pathsAbove_def)
qed

lemma addAncestors_Nil: "addAncestors [] dirs = dirs"
  by (subst addAncestors.simps) simp

lemma addAncestors_step:
  "dir \<noteq> [] \<Longrightarrow> addAncestors dir dirs
     = addAncestors (let d = filepath_Dir dir in if d = ''.'' then [] else d) (List.insert dir dirs)"
  by (subst addAncestors.simps) simp

lemma addAncestors_set:
  "\<forall>n\<in>set segs. validName n \<Longrightarrow>
     set (addAncestors (dirString segs) dirs) = set dirs \<union> pathsAbove segs"
proof (induction segs arbitrary: dirs rule: rev_induct)
  case Nil
  then show ?case by (simp add: dirString_def addAncestors_Nil pathsAbove_Nil)
next
  case (snoc n ds)
  let ?x = "joinPath (ds @ [n])"
  have v: "\<forall>m\<in>set (ds @ [n]). validName m" using snoc.prems by simp
  have ne: "?x \<noteq> []" using v by (intro joinPath_nonempty) (auto simp: validName_def)
  have up: "(let d = filepath_Dir ?x in if d = ''.'' then [] else d) = dirString ds"
    using filepath_Dir_joinPath[of "ds @ [n]"] v by simp
  have "addAncestors (dirString (ds @ [n])) dirs = addAncestors (dirString ds) (List.insert ?x dirs)"
    using addAncestors_step[OF ne, of dirs] up by (simp add: dirString_def)
  moreover have "set (addAncestors (dirString ds) (List.insert ?x dirs))
        = set (List.insert ?x dirs) \<union> pathsAbove ds"
    using snoc.IH[of "List.insert ?x dirs"] snoc.prems by simp
  ultimately show ?case by (simp add: pathsAbove_snoc)
qed

lemma addAncestors_distinct: "distinct dirs \<Longrightarrow> distinct (addAncestors dir dirs)"
proof (induction dir dirs rule: addAncestors.induct)
  case (1 dir dirs)
  show ?case
  proof (cases "dir = []")
    case True
    then show ?thesis using 1 by (simp add: addAncestors_Nil)
  next
    case False
    have "distinct (List.insert dir dirs)" using 1(2) by simp
    from 1(1)[OF False this] show ?thesis by (simp add: addAncestors_step[OF False])
  qed
qed

lemma ancestorOrSelf_pathsAbove:
  assumes "\<forall>n\<in>set segs. validName n"
  shows "{a. ancestorOrSelf a (dirString segs)} = pathsAbove segs"
proof (cases "segs = []")
  case True
  have "\<not> ancestorOrSelf a []" for a
  proof
    assume a: "ancestorOrSelf a []"
    then have "take (length (splitSep a)) [[]] = splitSep a" "a \<noteq> []"
      by (simp_all add: ancestorOrSelf_def)
    then have "splitSep a = [[]]" using splitSep_nonempty[of a]
      by (cases "length (splitSep a)") auto
    then have "joinPath (splitSep a) = []" by simp
    with \<open>a \<noteq> []\<close> show False by (simp add: joinPath_splitSep)
  qed
  then show ?thesis using True by (simp add: dirString_def pathsAbove_Nil)
next
  case False
  have sf: "\<forall>n\<in>set segs. sep \<notin> set n" using assms by (auto simp: validName_def)
  have sp: "splitSep (dirString segs) = segs"
    using False sf by (simp add: dirString_def splitSep_joinPath)
  show ?thesis
  proof (intro set_eqI iffI)
    fix a assume "a \<in> {a. ancestorOrSelf a (dirString segs)}"
    then have a: "a \<noteq> []" "take (length (splitSep a)) segs = splitSep a"
      by (simp_all add: ancestorOrSelf_def sp)
    have "segs = splitSep a @ drop (length (splitSep a)) segs"
      using a(2) append_take_drop_id[of "length (splitSep a)" segs] by simp
    moreover have "a = joinPath (splitSep a)" by (simp add: joinPath_splitSep)
    moreover have "splitSep a \<noteq> []" by (rule splitSep_nonempty)
    ultimately show "a \<in> pathsAbove segs"
      unfolding pathsAbove_def mem_Collect_eq by blast
  next
    fix a assume "a \<in> pathsAbove segs"
    then obtain p r where p: "a = joinPath p" "p \<noteq> []" "segs = p @ r"
      by (auto simp: pathsAbove_def)
    have pv: "\<forall>n\<in>set p. validName n" using assms p(3) by auto
    then have "a \<noteq> []" using p(1,2) joinPath_nonempty[of p] by (auto simp: validName_def)
    moreover have sa: "splitSep a = p" using p(1,2) pv by (simp add: splitSep_joinPath validName_def)
    moreover have "take (length (splitSep a)) (splitSep (dirString segs)) = splitSep a"
      using sp by (simp add: sa p(3))
    ultimately show "a \<in> {a. ancestorOrSelf a (dirString segs)}"
      by (simp add: ancestorOrSelf_def)
  qed
qed

lemma collectDirs_fold:
  assumes "\<forall>v\<in>set vs. \<exists>segs. (\<forall>n\<in>set segs. validName n) \<and> Directory v = dirString segs"
  shows "set (fold (\<lambda>video dirs. addAncestors (Directory video) dirs) vs dirs)
           = set dirs \<union> {a. \<exists>v\<in>set vs. ancestorOrSelf a (Directory v)}
       \<and> (distinct dirs \<longrightarrow> distinct (fold (\<lambda>video dirs. addAncestors (Directory video) dirs) vs dirs))"
  using assms
proof (induction vs arbitrary: dirs)
  case Nil
  then show ?case by simp
next
  case (Cons v vs)
  from Cons.prems obtain segs where segs: "\<forall>n\<in>set segs. validName n" "Directory v = dirString segs"
    by auto
  have s1: "set (addAncestors (Directory v) dirs) = set dirs \<union> {a. ancestorOrSelf a (Directory v)}"
    using addAncestors_set[OF segs(1), of dirs] ancestorOrSelf_pathsAbove[OF segs(1)] segs(2) by simp
  have ih: "set (fold (\<lambda>video dirs. addAncestors (Directory video) dirs) vs (addAncestors (Directory v) dirs))
           = set (addAncestors (Directory v) dirs) \<union> {a. \<exists>v\<in>set vs. ancestorOrSelf a (Directory v)}"
    and ihd: "distinct (addAncestors (Directory v) dirs) \<longrightarrow>
       distinct (fold (\<lambda>video dirs. addAncestors (Directory video) dirs) vs (addAncestors (Directory v) dirs))"
    using Cons.IH[of "addAncestors (Directory v) dirs"] Cons.prems by auto
  show ?case using ih ihd s1 addAncestors_distinct[of dirs "Directory v"] by auto
qed

lemma collectDirs_required:
  assumes "\<forall>v\<in>set vs. \<exists>segs. (\<forall>n\<in>set segs. validName n) \<and> Directory v = dirString segs"
  shows "set (collectDirs vs) = requiredDirs vs" and "distinct (collectDirs vs)"
  using collectDirs_fold[OF assms, of "[[]]"] by (auto simp: collectDirs_def requiredDirs_def)

lemma indexPages_append: "indexPages (a @ b) = indexPages a @ indexPages b"
  by (simp add: indexPages_def)

lemma playerPages_append: "playerPages (a @ b) = playerPages a @ playerPages b"
  by (simp add: playerPages_def)

lemma indexPages_index: "indexPages (map (\<lambda>d. (f d, IndexHtml (h d))) ds) = map (\<lambda>d. (f d, h d)) ds"
  by (induction ds) (simp_all add: indexPages_def)

lemma indexPages_player: "indexPages (map (\<lambda>v. (f v, PlayerHtml (h v))) vs) = []"
  by (induction vs) (simp_all add: indexPages_def)

lemma playerPages_index: "playerPages (map (\<lambda>d. (f d, IndexHtml (h d))) ds) = []"
  by (induction ds) (simp_all add: playerPages_def)

lemma playerPages_player: "playerPages (map (\<lambda>v. (f v, PlayerHtml (h v))) vs) = map (\<lambda>v. (f v, h v)) vs"
  by (induction vs) (simp_all add: playerPages_def)

lemma wf_env_range: "wf_env env \<Longrightarrow> set (rangeOrder env ks) = set ks \<and> distinct (rangeOrder env ks) = distinct ks"
  unfolding wf_env_def by (metis mset_eq_setD mset_eq_imp_distinct_iff)

lemma wf_env_sort_v:
  assumes "wf_env env"
  shows "mset (sortSlice_v env (\<lambda>a b. Name a < Name b) xs) = mset xs"
    and "sorted (map Name (sortSlice_v env (\<lambda>a b. Name a < Name b) xs))"
proof -
  from assms have s: "sortsBy (\<lambda>a b. Name a < Name b) (sortSlice_v env (\<lambda>a b. Name a < Name b))"
    by (simp add: wf_env_def)
  then show "mset (sortSlice_v env (\<lambda>a b. Name a < Name b) xs) = mset xs"
    by (simp add: sortsBy_def)
  from s have "sorted_wrt (\<lambda>a b. \<not> Name b < Name a) (sortSlice_v env (\<lambda>a b. Name a < Name b) xs)"
    by (simp add: sortsBy_def)
  then have "sorted_wrt (\<lambda>a b. Name a \<le> Name b) (sortSlice_v env (\<lambda>a b. Name a < Name b) xs)"
    by (simp add: not_less)
  then show "sorted (map Name (sortSlice_v env (\<lambda>a b. Name a < Name b) xs))"
    by (simp add: sorted_map)
qed

lemma wf_env_sort_d:
  assumes "wf_env env"
  shows "mset (sortSlice_d env (\<lambda>a b. Name_d a < Name_d b) xs) = mset xs"
    and "sorted (map Name_d (sortSlice_d env (\<lambda>a b. Name_d a < Name_d b) xs))"
proof -
  from assms have s: "sortsBy (\<lambda>a b. Name_d a < Name_d b) (sortSlice_d env (\<lambda>a b. Name_d a < Name_d b))"
    by (simp add: wf_env_def)
  then show "mset (sortSlice_d env (\<lambda>a b. Name_d a < Name_d b) xs) = mset xs"
    by (simp add: sortsBy_def)
  from s have "sorted_wrt (\<lambda>a b. \<not> Name_d b < Name_d a) (sortSlice_d env (\<lambda>a b. Name_d a < Name_d b) xs)"
    by (simp add: sortsBy_def)
  then have "sorted_wrt (\<lambda>a b. Name_d a \<le> Name_d b) (sortSlice_d env (\<lambda>a b. Name_d a < Name_d b) xs)"
    by (simp add: not_less)
  then show "sorted (map Name_d (sortSlice_d env (\<lambda>a b. Name_d a < Name_d b) xs))"
    by (simp add: sorted_map)
qed

lemma videoOf_Directory:
  assumes "q \<noteq> []" "\<forall>n\<in>set q. validName n"
  shows "\<exists>segs. (\<forall>n\<in>set segs. validName n) \<and> Directory (videoOf q) = dirString segs"
  using assms by (intro exI[of _ "butlast q"]) (auto simp: videoOf_def dest: in_set_butlastD)

text \<open>What a run of \<^verbatim>\<open>Generate\<close> that returns no error has done.\<close>

lemma Generate_success:
  assumes gen: "Generate env (Dir es) (New dir) = ((g, out), None)"
    and wf: "wf_node (Dir es)" and env: "wf_env env"
  shows "\<exists>g1 qs ds. scanVideos (Dir es) (New dir) = (g1, None)
      \<and> distinct qs \<and> set qs = {q. reach (os_basename dir) (Dir es) q \<and> accepted (Dir es) q}
      \<and> videos g1 = map videoOf qs \<and> grouped (videos g1) (dirTree g1)
      \<and> videos g = videos g1 \<and> videos g \<noteq> []
      \<and> distinct ds \<and> set ds = requiredDirs (videos g1)
      \<and> map fst (dirTree g) = map fst (dirTree g1)
      \<and> (\<forall>d. dirTree_get (dirTree g) d
             = (if d \<in> set ds then Videos (indexDataOf env g1 d) else dirTree_get (dirTree g1) d))
      \<and> out = map (\<lambda>d. (indexFileName d, IndexHtml (indexDataOf env g1 d))) ds
              @ map (\<lambda>v. (PlayerPage v, PlayerHtml (playerDataOf env g v))) (videos g)"
proof -
  obtain g1 r1 where scan: "scanVideos (Dir es) (New dir) = (g1, r1)"
    by (cases "scanVideos (Dir es) (New dir)")
  from gen have p: "parseIndexOk env" "parsePlayerOk env"
    by (auto simp: Generate_def split: if_splits)
  from gen scan p have r1: "r1 = None"
    by (cases r1) (auto simp: Generate_def)
  from gen scan p r1 have ne: "videos g1 \<noteq> []"
    by (auto simp: Generate_def split: if_splits)
  obtain st2 r2 where ix: "generateIndexPages env (g1, []) = (st2, r2)"
    by (cases "generateIndexPages env (g1, [])")
  from gen scan p r1 ne ix have r2: "r2 = None"
    by (cases r2) (auto simp: Generate_def)
  obtain g2 out2 where st2: "st2 = (g2, out2)" by (cases st2)
  obtain st3 r3 where pl: "generatePlayerPages env (g2, out2) = (st3, r3)"
    by (cases "generatePlayerPages env (g2, out2)")
  from gen scan p r1 ne ix r2 st2 pl have r3: "r3 = None" and st3: "st3 = (g, out)"
    by (cases r3; auto simp: Generate_def)+
  from scan_result[OF scan wf] r1 obtain qs where qs: "distinct qs"
      "set qs = {q. reach (os_basename dir) (Dir es) q \<and> accepted (Dir es) q}"
      "videos g1 = map videoOf qs" "grouped (videos g1) (dirTree g1)"
    by auto
  have dirs: "\<forall>v\<in>set (videos g1). \<exists>segs. (\<forall>n\<in>set segs. validName n) \<and> Directory v = dirString segs"
  proof
    fix v assume "v \<in> set (videos g1)"
    then obtain q where q: "q \<in> set qs" "v = videoOf q" using qs(3) by auto
    then have r: "reach (os_basename dir) (Dir es) q" using qs(2) by simp
    then have "q \<noteq> []" by (cases q) simp_all
    with reach_valid[OF wf r] q(2) show "\<exists>segs. (\<forall>n\<in>set segs. validName n) \<and> Directory v = dirString segs"
      using videoOf_Directory[of q] by simp
  qed
  let ?ds = "rangeOrder env (collectDirs (videos g1))"
  have ds: "distinct ?ds" "set ?ds = requiredDirs (videos g1)"
    using collectDirs_required[OF dirs] wf_env_range[OF env] by auto
  have "forEach (generateIndexPage env) ?ds (g1, []) = ((g2, out2), None)"
    using ix r2 st2 by (simp add: generateIndexPages_def)
  from forEach_index[OF env ds(1) this]
  have i: "out2 = map (\<lambda>d. (indexFileName d, IndexHtml (indexDataOf env g1 d))) ?ds"
    "videos g2 = videos g1" "map fst (dirTree g2) = map fst (dirTree g1)"
    "\<forall>d. dirTree_get (dirTree g2) d
              = (if d \<in> set ?ds then Videos (indexDataOf env g1 d) else dirTree_get (dirTree g1) d)"
    by auto
  have "forEach (generatePlayerPage env) (videos g2) (g2, out2) = ((g, out), None)"
    using pl r3 st3 by (simp add: generatePlayerPages_def)
  from forEach_player[OF this]
  have j: "g = g2" "out = out2 @ map (\<lambda>v. (PlayerPage v, PlayerHtml (playerDataOf env g2 v))) (videos g2)"
    by auto
  show ?thesis
    using scan r1 qs ds i j ne
    by (intro exI[of _ g1] exI[of _ qs] exI[of _ ?ds]) simp
qed

lemma subDirs_step_cases:
  "\<exists>p ps q qs. splitSep d = p # ps
     \<and> splitSep (trimPrefix d (dir @ [sep])) = q # qs
     \<and> (\<forall>acc. subDirs_step dir d acc =
           (if d = dir then acc
            else if dir = [] then List.insert p acc
            else if hasPrefix d (dir @ [sep]) then List.insert q acc
            else acc))"
proof -
  obtain p ps where 1: "splitSep d = p # ps"
    using splitSep_nonempty[of d] by (cases "splitSep d") auto
  obtain q qs where 2: "splitSep (trimPrefix d (dir @ [sep])) = q # qs"
    using splitSep_nonempty[of "trimPrefix d (dir @ [sep])"]
    by (cases "splitSep (trimPrefix d (dir @ [sep]))") auto
  have "subDirs_step dir d acc =
           (if d = dir then acc
            else if dir = [] then List.insert p acc
            else if hasPrefix d (dir @ [sep]) then List.insert q acc
            else acc)" for acc
    unfolding subDirs_step_def 1 2 list.case ..
  with 1 2 show ?thesis by blast
qed

lemma subDirs_step_set: "set (subDirs_step dir d acc) = set acc \<union> set (subDirs_step dir d [])"
proof -
  obtain p q where a: "\<forall>acc. subDirs_step dir d acc =
           (if d = dir then acc
            else if dir = [] then List.insert p acc
            else if hasPrefix d (dir @ [sep]) then List.insert q acc
            else acc)"
    using subDirs_step_cases[of d dir] by blast
  have ins: "set (List.insert x acc) = set acc \<union> set (List.insert x [])" for x :: string
    by simp
  show ?thesis
    unfolding a[rule_format] using ins[of p] ins[of q]
    by (cases "d = dir"; cases "dir = []"; cases "hasPrefix d (dir @ [sep])"; simp)
qed

lemma subDirs_fold_set:
  "set (fold (subDirs_step dir) ks acc) = set acc \<union> (\<Union>k\<in>set ks. set (subDirs_step dir k []))"
proof (induction ks arbitrary: acc)
  case Nil
  then show ?case by simp
next
  case (Cons k ks)
  show ?case using Cons[of "subDirs_step dir k acc"] subDirs_step_set[of dir k acc] by auto
qed

lemma hasPrefix_split: "hasPrefix k p \<Longrightarrow> k = p @ trimPrefix k p"
  by (metis append_take_drop_id hasPrefix_def trimPrefix_def)

lemma subDir_child:
  assumes sub: "sub \<in> set (subDirs_step dir k [])"
    and k: "k = dirString segs" "\<forall>n\<in>set segs. validName n"
  shows "ancestorOrSelf (if dir \<noteq> [] then dir @ [sep] @ sub else sub) k"
proof -
  obtain p ps q qs where 1: "splitSep k = p # ps"
    and 2: "splitSep (trimPrefix k (dir @ [sep])) = q # qs"
    and a: "subDirs_step dir k [] =
           (if k = dir then []
            else if dir = [] then List.insert p []
            else if hasPrefix k (dir @ [sep]) then List.insert q []
            else [])"
    using subDirs_step_cases[of k dir] by blast
  show ?thesis
  proof (cases "dir = []")
    case True
    from sub have kne: "k \<noteq> []" and sp: "sub = p"
      unfolding a using True by (cases "k = dir"; simp)+
    have sne: "segs \<noteq> []" using kne k(1) by (auto simp: dirString_def)
    have sfree: "\<forall>n\<in>set segs. sep \<notin> set n" using k(2) unfolding validName_def by blast
    have "k = joinPath segs" using sne k(1) by (simp add: dirString_def)
    then have segs: "segs \<noteq> []" "splitSep k = segs"
      using sne splitSep_joinPath[OF sne sfree] by simp_all
    with 1 sp have "sub \<in> set segs" by (metis list.set_intros(1))
    then have v: "sub \<noteq> []" "sep \<notin> set sub" using k(2) by (auto simp: validName_def)
    then have "splitSep sub = [sub]" by (simp add: splitSep_noSep)
    moreover have "take 1 (splitSep k) = [sub]" using 1 sp by simp
    ultimately show ?thesis using True v(1) by (simp add: ancestorOrSelf_def)
  next
    case False
    from sub have pre: "hasPrefix k (dir @ [sep])" and sq: "sub = q"
      unfolding a using False by (cases "k = dir"; cases "hasPrefix k (dir @ [sep])"; simp)+
    let ?rest = "trimPrefix k (dir @ [sep])"
    have keq: "k = dir @ sep # ?rest" using hasPrefix_split[OF pre] by simp
    have "sub \<in> set (splitSep ?rest)" using 2 sq by simp
    then have "sep \<notin> set sub" by (rule splitSep_elems)
    then have ss: "splitSep sub = [sub]" by (rule splitSep_noSep)
    have sk: "splitSep k = splitSep dir @ sub # qs"
      by (subst keq) (simp add: splitSep_append_sep 2 sq)
    have sc: "splitSep (dir @ sep # sub) = splitSep dir @ [sub]"
      by (simp add: splitSep_append_sep ss)
    show ?thesis using False by (simp add: ancestorOrSelf_def sc sk)
  qed
qed

lemma dirEntryOf_Path:
  "Path_d (dirEntryOf dir sub) = replaceSep (if dir \<noteq> [] then dir @ [sep] @ sub else sub) @ ''_index.html''"
  by (simp add: dirEntryOf_def Let_def)

lemma indexDataOf_Directories:
  assumes "wf_env env"
  shows "set (Directories (indexDataOf env g d))
       = dirEntryOf d ` (\<Union>k\<in>fst ` set (dirTree g). set (subDirs_step d k []))"
proof -
  let ?xs = "map (dirEntryOf d) (rangeOrder env (fold (subDirs_step d) (rangeOrder env (map fst (dirTree g))) []))"
  have "Directories (indexDataOf env g d) = sortSlice_d env (\<lambda>a b. Name_d a < Name_d b) ?xs"
    by (simp add: indexDataOf_def Let_def)
  then have "set (Directories (indexDataOf env g d)) = set ?xs"
    using mset_eq_setD[OF wf_env_sort_d(1)[OF assms, of ?xs]] by simp
  also have "\<dots> = dirEntryOf d ` (\<Union>k\<in>fst ` set (dirTree g). set (subDirs_step d k []))"
    using wf_env_range[OF assms] by (simp add: subDirs_fold_set)
  finally show ?thesis .
qed

section \<open>Directory closure\<close>

text \<open>
  C2. In a run of \<^verbatim>\<open>Generate\<close> that returns no error, the directories for which a listing
  is written are exactly the required ones: the root and every directory above or equal
  to the directory of a video of the catalog, each once, under its listing file name.
  Every subdirectory link on a listing is the file name of a listing written in the same
  run.
\<close>

theorem listings_are_the_closure:
  assumes "Generate env (Dir es) (New dir) = ((g, out), None)"
    and "wf_node (Dir es)" and "wf_env env"
  shows "CurrentPath ` snd ` set (indexPages out) = requiredDirs (videos g)
       \<and> distinct (map (\<lambda>p. CurrentPath (snd p)) (indexPages out))
       \<and> list_all (\<lambda>p. fst p = indexFileName (CurrentPath (snd p))
                        \<and> list_all (\<lambda>e. Path_d e \<in> fst ` set (indexPages out)) (Directories (snd p)))
            (indexPages out)"
proof -
  from Generate_success[OF assms] obtain g1 qs ds where
      g1: "grouped (videos g1) (dirTree g1)" "videos g = videos g1"
      and qs: "set qs = {q. reach (os_basename dir) (Dir es) q \<and> accepted (Dir es) q}"
        "videos g1 = map videoOf qs"
      and ds: "distinct ds" "set ds = requiredDirs (videos g1)"
      and out: "out = map (\<lambda>d. (indexFileName d, IndexHtml (indexDataOf env g1 d))) ds
              @ map (\<lambda>v. (PlayerPage v, PlayerHtml (playerDataOf env g v))) (videos g)"
    by blast
  have ip: "indexPages out = map (\<lambda>d. (indexFileName d, indexDataOf env g1 d)) ds"
    unfolding out by (simp add: indexPages_append indexPages_index indexPages_player)
  have cp: "CurrentPath (indexDataOf env g1 d) = d" for d
    by (simp add: indexDataOf_def Let_def)
  have "CurrentPath ` snd ` set (indexPages out) = (\<lambda>d. CurrentPath (indexDataOf env g1 d)) ` set ds"
    unfolding ip by (simp add: image_image)
  then have one: "CurrentPath ` snd ` set (indexPages out) = requiredDirs (videos g)"
    using ds(2) g1(2) by (simp add: cp)
  have two: "distinct (map (\<lambda>p. CurrentPath (snd p)) (indexPages out))"
    unfolding ip using ds(1) by (simp add: comp_def cp)
  have keys: "fst ` set (dirTree g1) = Directory ` set (videos g1)"
    using g1(1) by (simp add: grouped_def)
  have link: "Path_d e \<in> fst ` set (indexPages out)"
    if d: "d \<in> set ds" and e: "e \<in> set (Directories (indexDataOf env g1 d))" for d e
  proof -
    from e indexDataOf_Directories[OF assms(3), of g1 d] keys
    obtain v sub where v: "v \<in> set (videos g1)" and sub: "sub \<in> set (subDirs_step d (Directory v) [])"
      and ee: "e = dirEntryOf d sub"
      by auto
    from v obtain q where q: "q \<in> set qs" "v = videoOf q" using qs(2) by auto
    then have r: "reach (os_basename dir) (Dir es) q" using qs(1) by simp
    then have "q \<noteq> []" by (cases q) simp_all
    with reach_valid[OF assms(2) r] q(2) obtain segs where
      segs: "\<forall>n\<in>set segs. validName n" "Directory v = dirString segs"
      using videoOf_Directory[of q] by auto
    let ?child = "if d \<noteq> [] then d @ [sep] @ sub else sub"
    have anc: "ancestorOrSelf ?child (Directory v)"
      by (rule subDir_child[OF sub segs(2,1)])
    then have "?child \<in> requiredDirs (videos g1)" using v by (auto simp: requiredDirs_def)
    then have cd: "?child \<in> set ds" using ds(2) by simp
    have "?child \<noteq> []" using anc by (simp add: ancestorOrSelf_def)
    then have "Path_d e = indexFileName ?child"
      unfolding ee dirEntryOf_Path by (simp add: indexFileName_def)
    then show ?thesis unfolding ip using cd by (auto simp: image_iff)
  qed
  have three: "list_all (\<lambda>p. fst p = indexFileName (CurrentPath (snd p))
                        \<and> list_all (\<lambda>e. Path_d e \<in> fst ` set (indexPages out)) (Directories (snd p)))
            (indexPages out)"
    unfolding list_all_iff
  proof (intro ballI conjI)
    fix p assume "p \<in> set (indexPages out)"
    then obtain d where d: "d \<in> set ds" "p = (indexFileName d, indexDataOf env g1 d)"
      unfolding ip by auto
    show "fst p = indexFileName (CurrentPath (snd p))" using d(2) by (simp add: cp)
    fix e assume "e \<in> set (Directories (snd p))"
    then show "Path_d e \<in> fst ` set (indexPages out)" using link[OF d(1)] d(2) by simp
  qed
  show ?thesis using one two three by blast
qed

lemma sort_key_sortsBy:
  fixes f :: "'a \<Rightarrow> string"
  shows "sortsBy (\<lambda>a b. f a < f b) (sort_key f)"
proof -
  have "sorted_wrt (\<lambda>a b. \<not> f b < f a) (sort_key f xs)" for xs
  proof -
    have "sorted (map f (sort_key f xs))" by (rule sorted_sort_key)
    then have "sorted_wrt (\<lambda>a b. f a \<le> f b) (sort_key f xs)" by (simp add: sorted_map)
    then show ?thesis by (simp add: not_less)
  qed
  then show ?thesis by (simp add: sortsBy_def)
qed

lemma stableEnv_wf: "wf_env stableEnv"
  using sort_key_sortsBy[of Name] sort_key_sortsBy[of Name_d]
  by (simp add: wf_env_def stableEnv_def)

theorem listings_are_the_closure_witness:
  "snd (Generate stableEnv exTree2 (New ''videos'')) = None
   \<and> wf_node exTree2 \<and> wf_env stableEnv
   \<and> map fst (indexPages (snd (fst (Generate stableEnv exTree2 (New ''videos'')))))
       = [''a_index.html'', ''a_b_index.html'', ''a_b_c_index.html'', ''index.html'']
   \<and> CurrentPath ` snd ` set (indexPages (snd (fst (Generate stableEnv exTree2 (New ''videos'')))))
       = requiredDirs (videos (fst (fst (Generate stableEnv exTree2 (New ''videos'')))))
   \<and> distinct (map (\<lambda>p. CurrentPath (snd p))
         (indexPages (snd (fst (Generate stableEnv exTree2 (New ''videos''))))))
   \<and> list_all (\<lambda>p. fst p = indexFileName (CurrentPath (snd p))
         \<and> list_all (\<lambda>e. Path_d e
               \<in> fst ` set (indexPages (snd (fst (Generate stableEnv exTree2 (New ''videos''))))))
             (Directories (snd p)))
       (indexPages (snd (fst (Generate stableEnv exTree2 (New ''videos'')))))"
proof -
  let ?r = "Generate stableEnv exTree2 (New ''videos'')"
  have h0: "snd ?r = None" by code_simp
  have names: "map fst (indexPages (snd (fst ?r)))
       = [''a_index.html'', ''a_b_index.html'', ''a_b_c_index.html'', ''index.html'']"
    by code_simp
  have h1: "Generate stableEnv (Dir [(''a'', Dir [(''b'', Dir [(''c'', Dir [(''video.mp4'', File)])])])])
       (New ''videos'') = ((fst (fst ?r), snd (fst ?r)), None)"
    using h0 by (simp add: exTree2_def prod_eq_iff)
  have h2: "wf_node (Dir [(''a'', Dir [(''b'', Dir [(''c'', Dir [(''video.mp4'', File)])])])])"
    by (simp add: validName_def sep_def)
  show ?thesis
    using listings_are_the_closure [OF h1 h2 stableEnv_wf] h0 h2 names stableEnv_wf
    by (simp add: exTree2_def)
qed

section \<open>Order of the entries and navigation\<close>

lemma findFirst_distinct:
  "distinct (map f xs) \<Longrightarrow> i < length xs \<Longrightarrow> findFirst (\<lambda>v. f v = f (xs ! i)) xs = Some i"
proof (induction xs arbitrary: i)
  case Nil
  then show ?case by simp
next
  case (Cons x xs)
  show ?case
  proof (cases i)
    case 0
    then show ?thesis by simp
  next
    case (Suc j)
    with Cons.prems have j: "j < length xs" and d: "distinct (map f xs)" and nx: "f x \<notin> f ` set xs"
      by auto
    have "f x \<noteq> f (xs ! j)" using nx j by (metis image_eqI nth_mem)
    with Cons.IH[OF d j] Suc show ?thesis by simp
  qed
qed

lemma scan_distinct_paths:
  assumes "scanVideos (Dir es) (New dir) = (g, res)" and "wf_node (Dir es)"
  shows "distinct (map RelativePath (videos g))"
proof -
  from scan_result[OF assms] obtain qs where qs: "distinct qs"
      "set qs \<subseteq> {q. reach (os_basename dir) (Dir es) q \<and> accepted (Dir es) q}"
      "videos g = map videoOf qs"
    by blast
  have valid: "q \<noteq> [] \<and> (\<forall>n\<in>set q. sep \<notin> set n)" if "q \<in> set qs" for q
  proof -
    have r: "reach (os_basename dir) (Dir es) q" using that qs(2) by auto
    then have "q \<noteq> []" by (cases q) simp_all
    moreover have "\<forall>n\<in>set q. sep \<notin> set n"
      using reach_valid[OF assms(2) r] unfolding validName_def by blast
    ultimately show ?thesis by simp
  qed
  have "inj_on joinPath (set qs)"
  proof (rule inj_onI)
    fix p q assume "p \<in> set qs" "q \<in> set qs" "joinPath p = joinPath q"
    then show "p = q" using joinPath_inj[of p q] valid[of p] valid[of q] by blast
  qed
  then have "distinct (map joinPath qs)" using qs(1) by (simp add: distinct_map)
  moreover have "map RelativePath (videos g) = map joinPath qs"
    unfolding qs(3) by (simp add: videoOf_def)
  ultimately show ?thesis by simp
qed

lemma subDirs_fold_distinct:
  "distinct acc \<Longrightarrow> distinct (fold (subDirs_step dir) ks acc)"
proof (induction ks arbitrary: acc)
  case Nil
  then show ?case by simp
next
  case (Cons k ks)
  obtain p q where a: "\<forall>acc. subDirs_step dir k acc =
           (if k = dir then acc
            else if dir = [] then List.insert p acc
            else if hasPrefix k (dir @ [sep]) then List.insert q acc
            else acc)"
    using subDirs_step_cases[of k dir] by blast
  have "distinct (subDirs_step dir k acc)"
    unfolding a[rule_format] using Cons.prems
    by (cases "k = dir"; cases "dir = []"; cases "hasPrefix k (dir @ [sep])"; simp)
  from Cons.IH[OF this] show ?case by simp
qed

text \<open>The listing of a directory, in a run without error.\<close>

lemma listing_of_run:
  assumes gen: "Generate env (Dir es) (New dir) = ((g, out), None)"
    and wf: "wf_node (Dir es)" and env: "wf_env env"
    and page: "(f, data) \<in> set (indexPages out)"
  shows "dirTree_get (dirTree g) (CurrentPath data) = Videos data"
    and "mset (Videos data) = mset (filter (\<lambda>v. Directory v = CurrentPath data) (videos g))"
    and "sorted (map Name (Videos data))"
    and "sorted (map Name_d (Directories data))"
    and "distinct (map Name_d (Directories data))"
    and "distinct (map RelativePath (Videos data))"
proof -
  from Generate_success[OF gen wf env] obtain g1 qs ds where
      scan: "scanVideos (Dir es) (New dir) = (g1, None)"
      and g1: "grouped (videos g1) (dirTree g1)" "videos g = videos g1"
      and ds: "distinct ds" "set ds = requiredDirs (videos g1)"
      and get: "\<forall>d. dirTree_get (dirTree g) d
             = (if d \<in> set ds then Videos (indexDataOf env g1 d) else dirTree_get (dirTree g1) d)"
      and out: "out = map (\<lambda>d. (indexFileName d, IndexHtml (indexDataOf env g1 d))) ds
              @ map (\<lambda>v. (PlayerPage v, PlayerHtml (playerDataOf env g v))) (videos g)"
    by blast
  have ip: "indexPages out = map (\<lambda>d. (indexFileName d, indexDataOf env g1 d)) ds"
    unfolding out by (simp add: indexPages_append indexPages_index indexPages_player)
  from page obtain d where d: "d \<in> set ds" "data = indexDataOf env g1 d"
    unfolding ip by auto
  have cp: "CurrentPath data = d" unfolding d(2) by (simp add: indexDataOf_def Let_def)
  let ?src = "dirTree_get (dirTree g1) d"
  have vs: "Videos data = sortSlice_v env (\<lambda>a b. Name a < Name b) ?src"
    unfolding d(2) by (rule indexDataOf_Videos)
  have src: "?src = filter (\<lambda>v. Directory v = d) (videos g1)"
    using g1(1) by (simp add: grouped_def)
  have "dirTree_get (dirTree g) d = Videos (indexDataOf env g1 d)"
    using get d(1) by simp
  then show "dirTree_get (dirTree g) (CurrentPath data) = Videos data"
    using cp d(2) by simp
  show m: "mset (Videos data) = mset (filter (\<lambda>v. Directory v = CurrentPath data) (videos g))"
    unfolding vs cp g1(2) src[symmetric] by (rule wf_env_sort_v(1)[OF env])
  show "sorted (map Name (Videos data))"
    unfolding vs by (rule wf_env_sort_v(2)[OF env])
  let ?xs = "map (dirEntryOf d) (rangeOrder env (fold (subDirs_step d) (rangeOrder env (map fst (dirTree g1))) []))"
  have dd: "Directories data = sortSlice_d env (\<lambda>a b. Name_d a < Name_d b) ?xs"
    unfolding d(2) by (simp add: indexDataOf_def Let_def)
  show "sorted (map Name_d (Directories data))"
    unfolding dd by (rule wf_env_sort_d(2)[OF env])
  have "distinct (fold (subDirs_step d) (rangeOrder env (map fst (dirTree g1))) [])"
    by (rule subDirs_fold_distinct) simp
  then have "distinct (rangeOrder env (fold (subDirs_step d) (rangeOrder env (map fst (dirTree g1))) []))"
    using wf_env_range[OF env] by simp
  moreover have "map Name_d ?xs = rangeOrder env (fold (subDirs_step d) (rangeOrder env (map fst (dirTree g1))) [])"
    by (simp add: comp_def dirEntryOf_def Let_def)
  ultimately have "distinct (map Name_d ?xs)" by simp
  moreover have "mset (map Name_d (Directories data)) = mset (map Name_d ?xs)"
    unfolding dd mset_map using wf_env_sort_d(1)[OF env, of ?xs] by simp
  ultimately show "distinct (map Name_d (Directories data))"
    by (metis mset_eq_imp_distinct_iff)
  have "distinct (map RelativePath (videos g))"
    using scan_distinct_paths[OF scan wf] g1(2) by simp
  then have "distinct (map RelativePath (filter (\<lambda>v. Directory v = CurrentPath data) (videos g)))"
    by (rule distinct_map_filter)
  moreover have "mset (map RelativePath (Videos data))
      = mset (map RelativePath (filter (\<lambda>v. Directory v = CurrentPath data) (videos g)))"
    unfolding mset_map using m by simp
  ultimately show "distinct (map RelativePath (Videos data))"
    by (metis mset_eq_imp_distinct_iff)
qed

lemma playerDataOf_nav:
  assumes "dirTree_get (dirTree g) (Directory v) = vs" "distinct (map RelativePath vs)"
    and "i < length vs" "v = vs ! i"
  shows "HasPrev (playerDataOf env g v) = (0 < i)"
    and "PrevVideo (playerDataOf env g v) = (if 0 < i then PlayerPage (vs ! (i - 1)) else [])"
    and "HasNext (playerDataOf env g v) = (i + 1 < length vs)"
    and "NextVideo (playerDataOf env g v) = (if i + 1 < length vs then PlayerPage (vs ! (i + 1)) else [])"
proof -
  have ff: "findFirst (\<lambda>w. RelativePath w = RelativePath v) vs = Some i"
    unfolding assms(4) by (rule findFirst_distinct[OF assms(2,3)])
  have lt: "(i < length vs - Suc 0) = (Suc i < length vs)" using assms(3) by auto
  show "HasPrev (playerDataOf env g v) = (0 < i)"
    "PrevVideo (playerDataOf env g v) = (if 0 < i then PlayerPage (vs ! (i - 1)) else [])"
    "HasNext (playerDataOf env g v) = (i + 1 < length vs)"
    "NextVideo (playerDataOf env g v) = (if i + 1 < length vs then PlayerPage (vs ! (i + 1)) else [])"
    by (simp_all add: playerDataOf_def Let_def assms(1) ff lt)
qed

text \<open>
  C3. In a run of \<^verbatim>\<open>Generate\<close> without error, take the video list of the listing of a
  directory (sorted by display name) and a video at index \<open>i\<close> of it. Its player page is
  written, it has a previous link exactly when \<open>i > 0\<close>, and then the link is the player
  page of the video at \<open>i - 1\<close>; it has a next link exactly when \<open>i\<close> is not the last
  index, and then the link is the player page of the video at \<open>i + 1\<close>. Every video of
  the catalog is in the list of the listing of its directory.
\<close>

theorem navigation_links_neighbours:
  assumes "Generate env (Dir es) (New dir) = ((g, out), None)"
    and "wf_node (Dir es)" and "wf_env env"
    and "(f, data) \<in> set (indexPages out)" and "i < length (Videos data)"
  shows "(PlayerPage (Videos data ! i), playerDataOf env g (Videos data ! i)) \<in> set (playerPages out)
       \<and> HasPrev (playerDataOf env g (Videos data ! i)) = (0 < i)
       \<and> PrevVideo (playerDataOf env g (Videos data ! i))
             = (if 0 < i then PlayerPage (Videos data ! (i - 1)) else [])
       \<and> HasNext (playerDataOf env g (Videos data ! i)) = (i + 1 < length (Videos data))
       \<and> NextVideo (playerDataOf env g (Videos data ! i))
             = (if i + 1 < length (Videos data) then PlayerPage (Videos data ! (i + 1)) else [])
       \<and> sorted (map Name (Videos data))
       \<and> list_all (\<lambda>v. list_ex (\<lambda>p. CurrentPath (snd p) = Directory v \<and> v \<in> set (Videos (snd p)))
                         (indexPages out)) (videos g)"
proof -
  let ?v = "Videos data ! i"
  note l = listing_of_run[OF assms(1,2,3,4)]
  from Generate_success[OF assms(1,2,3)] obtain g1 qs ds where
      g1: "grouped (videos g1) (dirTree g1)" "videos g = videos g1"
      and ds: "set ds = requiredDirs (videos g1)"
      and out: "out = map (\<lambda>d. (indexFileName d, IndexHtml (indexDataOf env g1 d))) ds
              @ map (\<lambda>v. (PlayerPage v, PlayerHtml (playerDataOf env g v))) (videos g)"
    by blast
  have pp: "playerPages out = map (\<lambda>v. (PlayerPage v, playerDataOf env g v)) (videos g)"
    unfolding out by (simp add: playerPages_append playerPages_index playerPages_player)
  have ip: "indexPages out = map (\<lambda>d. (indexFileName d, indexDataOf env g1 d)) ds"
    unfolding out by (simp add: indexPages_append indexPages_index indexPages_player)
  have "?v \<in> set (Videos data)" using assms(5) by simp
  then have "?v \<in># mset (filter (\<lambda>v. Directory v = CurrentPath data) (videos g))"
    using l(2) by (metis set_mset_mset)
  then have v: "?v \<in> set (videos g)" "Directory ?v = CurrentPath data" by auto
  have page: "(PlayerPage ?v, playerDataOf env g ?v) \<in> set (playerPages out)"
    unfolding pp using v(1) by auto
  have get: "dirTree_get (dirTree g) (Directory ?v) = Videos data"
    using l(1) v(2) by simp
  note nav = playerDataOf_nav[OF get l(6) assms(5) refl, of env]
  have cover: "list_all (\<lambda>v. list_ex (\<lambda>p. CurrentPath (snd p) = Directory v \<and> v \<in> set (Videos (snd p)))
                         (indexPages out)) (videos g)"
    unfolding list_all_iff list_ex_iff
  proof
    fix w assume w: "w \<in> set (videos g)"
    let ?d = "Directory w"
    have "?d \<in> requiredDirs (videos g1)"
    proof (cases "?d = []")
      case True
      then show ?thesis by (simp add: requiredDirs_def)
    next
      case False
      then have "ancestorOrSelf ?d ?d" by (simp add: ancestorOrSelf_def)
      then show ?thesis using w g1(2) by (auto simp: requiredDirs_def)
    qed
    then have d: "?d \<in> set ds" using ds by simp
    then have pg: "(indexFileName ?d, indexDataOf env g1 ?d) \<in> set (indexPages out)"
      unfolding ip by auto
    have cp: "CurrentPath (indexDataOf env g1 ?d) = ?d" by (simp add: indexDataOf_def Let_def)
    from listing_of_run(2)[OF assms(1,2,3) pg]
    have "mset (Videos (indexDataOf env g1 ?d)) = mset (filter (\<lambda>v. Directory v = ?d) (videos g))"
      by (simp add: cp)
    moreover have "w \<in># mset (filter (\<lambda>v. Directory v = ?d) (videos g))" using w by simp
    ultimately have "w \<in> set (Videos (indexDataOf env g1 ?d))" by (metis set_mset_mset)
    with pg cp show "\<exists>p\<in>set (indexPages out). CurrentPath (snd p) = Directory w \<and> w \<in> set (Videos (snd p))"
      by force
  qed
  show ?thesis using page nav l(3) cover by simp
qed

theorem navigation_links_neighbours_witness:
  "snd (Generate stableEnv exTree3 (New ''videos'')) = None
   \<and> wf_node exTree3 \<and> wf_env stableEnv
   \<and> hd (indexPages (snd (fst (Generate stableEnv exTree3 (New ''videos'')))))
        \<in> set (indexPages (snd (fst (Generate stableEnv exTree3 (New ''videos'')))))
   \<and> map PlayerPage (Videos (snd (hd (indexPages (snd (fst (Generate stableEnv exTree3 (New ''videos'')))))))) 
        = [''player_a.html'', ''player_b.html'', ''player_c.html'']
   \<and> HasPrev (playerDataOf stableEnv (fst (fst (Generate stableEnv exTree3 (New ''videos'')))) 
         (Videos (snd (hd (indexPages (snd (fst (Generate stableEnv exTree3 (New ''videos''))))))) ! 1))
   \<and> PrevVideo (playerDataOf stableEnv (fst (fst (Generate stableEnv exTree3 (New ''videos'')))) 
         (Videos (snd (hd (indexPages (snd (fst (Generate stableEnv exTree3 (New ''videos''))))))) ! 1))
        = ''player_a.html''
   \<and> HasNext (playerDataOf stableEnv (fst (fst (Generate stableEnv exTree3 (New ''videos'')))) 
         (Videos (snd (hd (indexPages (snd (fst (Generate stableEnv exTree3 (New ''videos''))))))) ! 1))
   \<and> NextVideo (playerDataOf stableEnv (fst (fst (Generate stableEnv exTree3 (New ''videos'')))) 
         (Videos (snd (hd (indexPages (snd (fst (Generate stableEnv exTree3 (New ''videos''))))))) ! 1))
        = ''player_c.html''
   \<and> (PlayerPage (Videos (snd (hd (indexPages (snd (fst (Generate stableEnv exTree3 (New ''videos''))))))) ! 1),
        playerDataOf stableEnv (fst (fst (Generate stableEnv exTree3 (New ''videos'')))) 
         (Videos (snd (hd (indexPages (snd (fst (Generate stableEnv exTree3 (New ''videos''))))))) ! 1))
        \<in> set (playerPages (snd (fst (Generate stableEnv exTree3 (New ''videos'')))))"
proof -
  let ?r = "Generate stableEnv exTree3 (New ''videos'')"
  let ?pages = "indexPages (snd (fst ?r))"
  let ?V = "Videos (snd (hd ?pages))"
  have h0: "snd ?r = None" by code_simp
  have h1: "Generate stableEnv (Dir [(''c.mp4'', File), (''a.mp4'', File), (''b.webm'', File)])
       (New ''videos'') = ((fst (fst ?r), snd (fst ?r)), None)"
    using h0 by (simp add: exTree3_def prod_eq_iff)
  have h2: "wf_node (Dir [(''c.mp4'', File), (''a.mp4'', File), (''b.webm'', File)])"
    by (simp add: validName_def sep_def)
  have ne: "?pages \<noteq> []" by code_simp
  then have h4: "(fst (hd ?pages), snd (hd ?pages)) \<in> set ?pages" by simp
  have pl: "map PlayerPage ?V = [''player_a.html'', ''player_b.html'', ''player_c.html'']"
    by code_simp
  have len: "length ?V = 3" by code_simp
  then have h5: "1 < length ?V" by simp
  have p0: "PlayerPage (?V ! 0) = ''player_a.html''" by code_simp
  have p2: "PlayerPage (?V ! 2) = ''player_c.html''" by code_simp
  note t = navigation_links_neighbours [OF h1 h2 stableEnv_wf h4 h5, unfolded exTree3_def[symmetric]]
  have a: "(PlayerPage (?V ! 1), playerDataOf stableEnv (fst (fst ?r)) (?V ! 1)) \<in> set (playerPages (snd (fst ?r)))"
    using t by blast
  have b: "HasPrev (playerDataOf stableEnv (fst (fst ?r)) (?V ! 1))"
    using t by simp
  have c: "PrevVideo (playerDataOf stableEnv (fst (fst ?r)) (?V ! 1)) = ''player_a.html''"
    using t p0 by simp
  have d: "HasNext (playerDataOf stableEnv (fst (fst ?r)) (?V ! 1))"
    using t len by simp
  have e: "NextVideo (playerDataOf stableEnv (fst (fst ?r)) (?V ! 1)) = ''player_c.html''"
    using t len p2 by (simp add: numeral_2_eq_2)
  have h2': "wf_node exTree3" using h2 by (simp add: exTree3_def)
  have h4': "hd ?pages \<in> set ?pages" using ne by simp
  show ?thesis
    using h0 h2' stableEnv_wf h4' pl a b c d e by blast
qed

text \<open>
  C4 as it is stated fails where it says that videos with equal display names keep their
  discovery order. In the root of thirteen videos the walk finds \<open>f.mp4\<close> before
  \<open>f.webm\<close>, both with the display name \<open>f\<close>. The slice is longer than twelve and not in
  order (\<open>k-2\<close> is before \<open>k\<close>), so \<^verbatim>\<open>sort.Slice\<close> partitions it around the element in
  the middle, \<open>f.webm\<close>, and \<open>f.mp4\<close> goes to the right of it: the listing has \<open>f.webm\<close>
  first.
\<close>

theorem equal_names_keep_order_counterexample:
  "snd (Generate goEnv exTree9 (New ''videos'')) = None
   \<and> map FileName (videos (fst (fst (Generate goEnv exTree9 (New ''videos'')))))
       = [''a.mp4'', ''b.mp4'', ''c.mp4'', ''d.mp4'', ''e.mp4'', ''f.mp4'', ''f.webm'', ''g.mp4'',
          ''h.mp4'', ''i.mp4'', ''j.mp4'', ''k-2.mp4'', ''k.mp4'']
   \<and> map Name (videos (fst (fst (Generate goEnv exTree9 (New ''videos'')))))
       = [''a'', ''b'', ''c'', ''d'', ''e'', ''f'', ''f'', ''g'', ''h'', ''i'', ''j'', ''k-2'', ''k'']
   \<and> map FileName (Videos (snd (hd (indexPages (snd (fst (Generate goEnv exTree9 (New ''videos''))))))))
       = [''a.mp4'', ''b.mp4'', ''c.mp4'', ''d.mp4'', ''e.mp4'', ''f.webm'', ''f.mp4'', ''g.mp4'',
          ''h.mp4'', ''i.mp4'', ''j.mp4'', ''k.mp4'', ''k-2.mp4'']"
proof -
  have "snd (Generate goEnv exTree9 (New ''videos'')) = None" by code_simp
  moreover have "map FileName (videos (fst (fst (Generate goEnv exTree9 (New ''videos'')))))
       = [''a.mp4'', ''b.mp4'', ''c.mp4'', ''d.mp4'', ''e.mp4'', ''f.mp4'', ''f.webm'', ''g.mp4'',
          ''h.mp4'', ''i.mp4'', ''j.mp4'', ''k-2.mp4'', ''k.mp4'']" by code_simp
  moreover have "map Name (videos (fst (fst (Generate goEnv exTree9 (New ''videos'')))))
       = [''a'', ''b'', ''c'', ''d'', ''e'', ''f'', ''f'', ''g'', ''h'', ''i'', ''j'', ''k-2'', ''k'']"
    by code_simp
  moreover have "map FileName (Videos (snd (hd (indexPages (snd (fst (Generate goEnv exTree9 (New ''videos''))))))))
       = [''a.mp4'', ''b.mp4'', ''c.mp4'', ''d.mp4'', ''e.mp4'', ''f.webm'', ''f.mp4'', ''g.mp4'',
          ''h.mp4'', ''i.mp4'', ''j.mp4'', ''k.mp4'', ''k-2.mp4'']" by code_simp
  ultimately show ?thesis by blast
qed

text \<open>
  C4, as amended. On every listing of a run without error the subdirectory entries are
  sorted by name, without repetition, and the video entries are the videos of the
  directory sorted by display name, in the bytewise order of Go's strings. The order of
  videos with equal display names is left open.
\<close>

theorem listing_entries_sorted:
  assumes "Generate env (Dir es) (New dir) = ((g, out), None)"
    and "wf_node (Dir es)" and "wf_env env"
    and "(f, data) \<in> set (indexPages out)"
  shows "sorted (map Name_d (Directories data)) \<and> distinct (map Name_d (Directories data))
       \<and> sorted (map Name (Videos data))
       \<and> mset (Videos data) = mset (filter (\<lambda>v. Directory v = CurrentPath data) (videos g))"
  using listing_of_run(2,3,4,5)[OF assms] by simp

theorem listing_entries_sorted_witness:
  "snd (Generate stableEnv exTree4 (New ''videos'')) = None
   \<and> wf_node exTree4 \<and> wf_env stableEnv
   \<and> last (indexPages (snd (fst (Generate stableEnv exTree4 (New ''videos'')))))
        \<in> set (indexPages (snd (fst (Generate stableEnv exTree4 (New ''videos'')))))
   \<and> map Name_d (Directories (snd (last (indexPages (snd (fst (Generate stableEnv exTree4 (New ''videos''))))))))
        = [''m'', ''z'']
   \<and> map Name (Videos (snd (last (indexPages (snd (fst (Generate stableEnv exTree4 (New ''videos''))))))))
        = [''B'', ''a'', ''c'']
   \<and> sorted (map Name_d (Directories (snd (last (indexPages (snd (fst (Generate stableEnv exTree4 (New ''videos'')))))))))
   \<and> distinct (map Name_d (Directories (snd (last (indexPages (snd (fst (Generate stableEnv exTree4 (New ''videos'')))))))))
   \<and> sorted (map Name (Videos (snd (last (indexPages (snd (fst (Generate stableEnv exTree4 (New ''videos'')))))))))
   \<and> mset (Videos (snd (last (indexPages (snd (fst (Generate stableEnv exTree4 (New ''videos''))))))))
        = mset (filter (\<lambda>v. Directory v
                 = CurrentPath (snd (last (indexPages (snd (fst (Generate stableEnv exTree4 (New ''videos''))))))))
             (videos (fst (fst (Generate stableEnv exTree4 (New ''videos''))))))"
proof -
  let ?r = "Generate stableEnv exTree4 (New ''videos'')"
  let ?pages = "indexPages (snd (fst ?r))"
  have h0: "snd ?r = None" by code_simp
  have h1: "Generate stableEnv (Dir [(''z'', Dir [(''v.mp4'', File)]), (''m'', Dir [(''w.mp4'', File)]),
                  (''c.mp4'', File), (''B.mp4'', File), (''a.mp4'', File)])
       (New ''videos'') = ((fst (fst ?r), snd (fst ?r)), None)"
    using h0 by (simp add: exTree4_def prod_eq_iff)
  have h2: "wf_node (Dir [(''z'', Dir [(''v.mp4'', File)]), (''m'', Dir [(''w.mp4'', File)]),
                  (''c.mp4'', File), (''B.mp4'', File), (''a.mp4'', File)])"
    by (simp add: validName_def sep_def)
  have ne: "?pages \<noteq> []" by code_simp
  then have h4: "(fst (last ?pages), snd (last ?pages)) \<in> set ?pages" by simp
  have dn: "map Name_d (Directories (snd (last ?pages))) = [''m'', ''z'']" by code_simp
  have vn: "map Name (Videos (snd (last ?pages))) = [''B'', ''a'', ''c'']" by code_simp
  note t = listing_entries_sorted [OF h1 h2 stableEnv_wf h4, unfolded exTree4_def[symmetric]]
  have h2': "wf_node exTree4" using h2 by (simp add: exTree4_def)
  have h4': "last ?pages \<in> set ?pages" using ne by simp
  show ?thesis
    using h0 h2' stableEnv_wf h4' dn vn t by blast
qed

section \<open>The files a run writes\<close>

text \<open>
  C6. For a root with \<open>a.mp4\<close> and \<open>sub/b.mkv\<close> the run of \<^verbatim>\<open>Generate\<close> ends without an
  error and writes the two listings and the two player pages, but no \<open>style.css\<close>:
  \<^verbatim>\<open>generateStylesheet\<close> is defined in the source and never called.
\<close>

theorem generate_writes_no_stylesheet:
  "snd (Generate stableEnv exTree5 (New ''videos'')) = None
   \<and> map fst (snd (fst (Generate stableEnv exTree5 (New ''videos''))))
       = [''sub_index.html'', ''index.html'', ''player_a.html'', ''player_sub_b.html'']"
  by code_simp

section \<open>The conversion pass, twice\<close>

text \<open>
  C7. A file \<open>a.AVI\<close>: the walk of the pass puts the extension into lower case and tests
  \<open>a.AVI.mp4\<close>, the loop writes \<open>a.mp4\<close>. The first pass ends well, and the second pass on
  the file system the first one left builds the same task and runs the encoder again.
\<close>

theorem second_pass_converts_again:
  "ConvertVideos okConv False (New ''videos'') exTree6
     = ((Dir [(''a.AVI'', File), (''a.mp4'', File)],
         [Searching, FoundToConvert 1, Converting 1 1 ''a.AVI'',
          RunFfmpeg False [''a.AVI''] [''a.mp4''], Done ''a.mp4'', ConversionCompleted]),
        None)
   \<and> tasksOf (New ''videos'') (Dir [(''a.AVI'', File), (''a.mp4'', File)]) = ([[''a.AVI'']], None)
   \<and> ConvertVideos okConv False (New ''videos'') (Dir [(''a.AVI'', File), (''a.mp4'', File)])
     = ((Dir [(''a.AVI'', File), (''a.mp4'', File)],
         [Searching, FoundToConvert 1, Converting 1 1 ''a.AVI'',
          RunFfmpeg False [''a.AVI''] [''a.mp4''], Done ''a.mp4'', ConversionCompleted]),
        None)"
  by code_simp

section \<open>Failure of one conversion\<close>

lemma runsOf_append: "runsOf (a @ b) = runsOf a @ runsOf b"
  by (simp add: runsOf_def)

lemma map_of_replace:
  "map_of (map (\<lambda>e. if fst e = n then (fst e, c') else e) es) n
     = (if n \<in> fst ` set es then Some c' else None)"
  by (induction es) auto

lemma os_Remove_gone: "os_Remove r p = Some r' \<Longrightarrow> os_Stat r' p = None"
proof (induction r p arbitrary: r' rule: os_Remove.induct)
  case (1 es n)
  then have "r' = Dir (filter (\<lambda>e. fst e \<noteq> n) es)"
    by (auto split: option.splits if_splits)
  moreover have "map_of (filter (\<lambda>e. fst e \<noteq> n) es) n = None"
    by (force simp: map_of_eq_None_iff)
  ultimately show ?case by simp
next
  case (2 es n m ns)
  from 2(2) obtain c c' where c: "map_of es n = Some c" "os_Remove c (m # ns) = Some c'"
      "r' = Dir (map (\<lambda>e. if fst e = n then (fst e, c') else e) es)"
    by (auto split: option.splits)
  have "n \<in> fst ` set es" using c(1) by (metis map_of_eq_None_iff option.distinct(1))
  then have "map_of (map (\<lambda>e. if fst e = n then (fst e, c') else e) es) n = Some c'"
    by (simp add: map_of_replace)
  moreover have "os_Stat c' (m # ns) = None" using 2(1)[OF c(1,2)] .
  ultimately show ?case unfolding c(3) by simp
qed simp_all

lemma os_Remove_fails: "p \<noteq> [] \<Longrightarrow> os_Remove r p = None \<Longrightarrow> os_Stat r p \<noteq> Some File"
proof (induction p arbitrary: r)
  case Nil
  then show ?case by simp
next
  case (Cons n ns)
  show ?case
  proof (cases r)
    case File
    then show ?thesis by simp
  next
    case (Unreadable em)
    then show ?thesis by simp
  next
    case (Dir es)
    show ?thesis
    proof (cases "map_of es n")
      case None
      then show ?thesis using Dir by simp
    next
      case (Some c)
      show ?thesis
      proof (cases ns)
        case Nil
        with Cons.prems(2) Dir Some have "\<not> removable c" by (auto split: if_splits)
        then have "c \<noteq> File" by auto
        then show ?thesis using Dir Some Nil by simp
      next
        case (Cons m ms)
        with Cons.prems(2) Dir Some have "os_Remove c ns = None" by (auto split: option.splits)
        from Cons.IH[OF _ this] Cons have "os_Stat c ns \<noteq> Some File" by simp
        then show ?thesis using Dir Some Cons by simp
      qed
    qed
  qed
qed

lemma convertOne_log:
  "runsOf (snd (convertOne env useGPU i n p (r, log))) = runsOf log @ [(p, targetOf p)]"
  by (cases "ffmpeg env useGPU p (mp4PathOf p (filepath_Ext (last p))) r")
     (simp_all add: convertOne_def Let_def runsOf_def targetOf_def)

lemma convertLoop_runs:
  "runsOf (snd (convertLoop env useGPU i n ps st)) = runsOf (snd st) @ map (\<lambda>p. (p, targetOf p)) ps"
proof (induction ps arbitrary: i st)
  case Nil
  then show ?case by simp
next
  case (Cons p ps)
  obtain r log where st: "st = (r, log)" by (cases st)
  show ?case using Cons[of "i + 1" "convertOne env useGPU i n p st"] convertOne_log[of env useGPU i n p r log]
    by (simp add: st)
qed

lemma convertOne_failed:
  assumes "p \<noteq> []" and "ffmpeg env useGPU p (targetOf p) r = Failed cause partial"
  shows "snd (convertOne env useGPU i n p (r, log))
           = log @ [Converting (i + 1) n (last p), RunFfmpeg useGPU p (targetOf p),
                    WarningErrorConverting (last p) cause]"
    and "os_Stat (fst (convertOne env useGPU i n p (r, log))) (targetOf p) \<noteq> Some File"
proof -
  let ?t = "targetOf p"
  let ?r1 = "if partial then fs_writeFile r ?t else r"
  have t: "?t \<noteq> []" using assms(1) by (cases p rule: rev_cases) (simp_all add: targetOf_def mp4PathOf_def)
  have f: "fst (convertOne env useGPU i n p (r, log))
         = (case os_Remove ?r1 ?t of None \<Rightarrow> ?r1 | Some x \<Rightarrow> x)"
    using assms(2) unfolding targetOf_def by (cases partial) (simp_all add: convertOne_def Let_def)
  show "snd (convertOne env useGPU i n p (r, log))
           = log @ [Converting (i + 1) n (last p), RunFfmpeg useGPU p (targetOf p),
                    WarningErrorConverting (last p) cause]"
    using assms(2) by (simp add: convertOne_def Let_def targetOf_def)
  show "os_Stat (fst (convertOne env useGPU i n p (r, log))) (targetOf p) \<noteq> Some File"
  proof (cases "os_Remove ?r1 ?t")
    case None
    then show ?thesis unfolding f using os_Remove_fails[OF t None] by simp
  next
    case (Some x)
    then show ?thesis unfolding f using os_Remove_gone[OF Some] by simp
  qed
qed

lemma convert_fn_shape:
  "convert_fn root = fileVisitor (\<lambda>path name tc. fst (convert_fn root path name False None tc))"
  by (auto simp: fun_eq_iff convert_fn_def fileVisitor_def hidden_def Let_def split: option.splits)

lemma convert_fold_subset:
  "set (fold (\<lambda>q tc. fst (convert_fn root q (last q) False None tc)) qs tc) \<subseteq> set tc \<union> set qs"
proof (induction qs arbitrary: tc)
  case Nil
  then show ?case by simp
next
  case (Cons q qs)
  have "set (fst (convert_fn root q (last q) False None tc)) \<subseteq> insert q (set tc)"
    by (auto simp: convert_fn_def Let_def)
  with Cons[of "fst (convert_fn root q (last q) False None tc)"] show ?case by auto
qed

lemma tasks_nonempty:
  assumes "tasksOf g (Dir es) = (tasks, res)" and "wf_node (Dir es)"
  shows "list_all (\<lambda>p. p \<noteq> []) tasks"
proof -
  let ?h = "\<lambda>path name tc. fst (convert_fn (Dir es) path name False None tc)"
  have "filepath_Walk (fileVisitor ?h) (rootDir g) (Dir es) [] = (tasks, res)"
    using assms(1) convert_fn_shape[of "Dir es"] by (simp add: tasksOf_def)
  from walk_fileVisitor_root[OF this assms(2)] obtain qs where
    qs: "tasks = fold (\<lambda>q. ?h q (last q)) qs []" "set qs \<subseteq> {q. reach (os_basename (rootDir g)) (Dir es) q}"
    by blast
  have "set tasks \<subseteq> set qs" unfolding qs(1) using convert_fold_subset[of "Dir es" qs "[]"] by simp
  moreover have "q \<noteq> []" if "q \<in> set qs" for q
  proof -
    have "reach (os_basename (rootDir g)) (Dir es) q" using that qs(2) by auto
    then show ?thesis by (cases q) simp_all
  qed
  ultimately show ?thesis unfolding list_all_iff by blast
qed

text \<open>
  C8. When \<^verbatim>\<open>ffmpeg\<close> is found (and the GPU check passes, if asked for) and the walk has
  built its tasks, \<^verbatim>\<open>ConvertVideos\<close> returns no error whatever the encoder does, and the
  encoder is run once for every task, in the order of the tasks. For a task whose run
  fails, the loop prints the warning with the name of the file and the cause right after
  the run, and no regular file is left at the target path.
\<close>

theorem failed_conversion_is_isolated:
  assumes "lookPathFfmpeg env" and "useGPU \<longrightarrow> checkNvidiaGPUOk env"
    and "wf_node (Dir es)" and "tasksOf g (Dir es) = (tasks, None)"
  shows "snd (ConvertVideos env useGPU g (Dir es)) = None
       \<and> runsOf (snd (fst (ConvertVideos env useGPU g (Dir es)))) = map (\<lambda>p. (p, targetOf p)) tasks
       \<and> list_all (\<lambda>p. p \<noteq> []) tasks
       \<and> (\<forall>i n p r log cause partial.
             p \<noteq> [] \<and> ffmpeg env useGPU p (targetOf p) r = Failed cause partial \<longrightarrow>
               snd (convertOne env useGPU i n p (r, log))
                 = log @ [Converting (i + 1) n (last p), RunFfmpeg useGPU p (targetOf p),
                          WarningErrorConverting (last p) cause]
               \<and> os_Stat (fst (convertOne env useGPU i n p (r, log))) (targetOf p) \<noteq> Some File)"
proof -
  have err: "snd (ConvertVideos env useGPU g (Dir es)) = None"
    using assms(1,2,4)
    by (auto simp: ConvertVideos_def Let_def split: prod.splits)
  have runs: "runsOf (snd (fst (ConvertVideos env useGPU g (Dir es)))) = map (\<lambda>p. (p, targetOf p)) tasks"
  proof (cases "length tasks = 0")
    case True
    then show ?thesis using assms(1,2,4)
      by (auto simp: ConvertVideos_def Let_def runsOf_def)
  next
    case False
    let ?log0 = "(if useGPU then [GpuDetected] else []) @ [Searching] @ [FoundToConvert (length tasks)]"
    let ?st = "convertLoop env useGPU 0 (length tasks) tasks (Dir es, ?log0)"
    have "snd (fst (ConvertVideos env useGPU g (Dir es))) = snd ?st @ [ConversionCompleted]"
      using False assms(1,2,4) by (auto simp: ConvertVideos_def Let_def split: prod.splits)
    moreover have "runsOf (snd ?st) = runsOf ?log0 @ map (\<lambda>p. (p, targetOf p)) tasks"
      using convertLoop_runs[of env useGPU 0 "length tasks" tasks "(Dir es, ?log0)"] by simp
    moreover have "runsOf ?log0 = []" by (simp add: runsOf_def)
    ultimately show ?thesis by (simp add: runsOf_append runsOf_def)
  qed
  show ?thesis
    using err runs tasks_nonempty[OF assms(4,3)] convertOne_failed by blast
qed

theorem failed_conversion_is_isolated_witness:
  "lookPathFfmpeg failConv \<and> checkNvidiaGPUOk failConv \<and> wf_node exTree7
   \<and> tasksOf (New ''videos'') exTree7 = ([[''a.avi''], [''b.mkv''], [''c.mov'']], None)
   \<and> ConvertVideos failConv True (New ''videos'') exTree7
       = ((Dir [(''a.avi'', File), (''b.mkv'', File), (''c.mov'', File), (''a.mp4'', File), (''c.mp4'', File)],
           [GpuDetected, Searching, FoundToConvert 3,
            Converting 1 3 ''a.avi'', RunFfmpeg True [''a.avi''] [''a.mp4''], Done ''a.mp4'',
            Converting 2 3 ''b.mkv'', RunFfmpeg True [''b.mkv''] [''b.mp4''],
            WarningErrorConverting ''b.mkv'' ''exit status 1'',
            Converting 3 3 ''c.mov'', RunFfmpeg True [''c.mov''] [''c.mp4''], Done ''c.mp4'',
            ConversionCompleted]),
          None)
   \<and> snd (ConvertVideos failConv True (New ''videos'') exTree7) = None
   \<and> runsOf (snd (fst (ConvertVideos failConv True (New ''videos'') exTree7)))
       = [([''a.avi''], [''a.mp4'']), ([''b.mkv''], [''b.mp4'']), ([''c.mov''], [''c.mp4''])]
   \<and> ffmpeg failConv True [''b.mkv''] (targetOf [''b.mkv'']) exTree7 = Failed ''exit status 1'' True
   \<and> snd (convertOne failConv True 1 3 [''b.mkv''] (exTree7, []))
       = [Converting 2 3 ''b.mkv'', RunFfmpeg True [''b.mkv''] [''b.mp4''],
          WarningErrorConverting ''b.mkv'' ''exit status 1'']
   \<and> os_Stat (fst (convertOne failConv True 1 3 [''b.mkv''] (exTree7, []))) [''b.mp4''] \<noteq> Some File"
proof -
  have h1: "lookPathFfmpeg failConv" and g: "checkNvidiaGPUOk failConv"
    by (simp_all add: failConv_def)
  then have h2: "True \<longrightarrow> checkNvidiaGPUOk failConv" by simp
  have h3: "wf_node (Dir [(''a.avi'', File), (''b.mkv'', File), (''c.mov'', File)])"
    by (simp add: validName_def sep_def)
  have h4: "tasksOf (New ''videos'') (Dir [(''a.avi'', File), (''b.mkv'', File), (''c.mov'', File)])
       = ([[''a.avi''], [''b.mkv''], [''c.mov'']], None)"
    by code_simp
  have full: "ConvertVideos failConv True (New ''videos'') exTree7
       = ((Dir [(''a.avi'', File), (''b.mkv'', File), (''c.mov'', File), (''a.mp4'', File), (''c.mp4'', File)],
           [GpuDetected, Searching, FoundToConvert 3,
            Converting 1 3 ''a.avi'', RunFfmpeg True [''a.avi''] [''a.mp4''], Done ''a.mp4'',
            Converting 2 3 ''b.mkv'', RunFfmpeg True [''b.mkv''] [''b.mp4''],
            WarningErrorConverting ''b.mkv'' ''exit status 1'',
            Converting 3 3 ''c.mov'', RunFfmpeg True [''c.mov''] [''c.mp4''], Done ''c.mp4'',
            ConversionCompleted]),
          None)"
    by code_simp
  have tg: "targetOf [''a.avi''] = [''a.mp4'']" "targetOf [''b.mkv''] = [''b.mp4'']"
      "targetOf [''c.mov''] = [''c.mp4'']"
    by code_simp+
  have ff: "ffmpeg failConv True [''b.mkv''] (targetOf [''b.mkv'']) exTree7 = Failed ''exit status 1'' True"
    by (simp add: failConv_def)
  note t = failed_conversion_is_isolated [OF h1 h2 h3 h4, unfolded exTree7_def[symmetric]]
  from t have a: "snd (ConvertVideos failConv True (New ''videos'') exTree7) = None" by blast
  from t have b: "runsOf (snd (fst (ConvertVideos failConv True (New ''videos'') exTree7)))
       = [([''a.avi''], [''a.mp4'']), ([''b.mkv''], [''b.mp4'']), ([''c.mov''], [''c.mp4''])]"
    by (simp add: tg)
  from t ff have c: "snd (convertOne failConv True 1 3 [''b.mkv''] (exTree7, []))
                 = [] @ [Converting (1 + 1) 3 (last [''b.mkv'']), RunFfmpeg True [''b.mkv''] (targetOf [''b.mkv'']),
                         WarningErrorConverting (last [''b.mkv'']) ''exit status 1'']
      \<and> os_Stat (fst (convertOne failConv True 1 3 [''b.mkv''] (exTree7, []))) (targetOf [''b.mkv'']) \<noteq> Some File"
    by blast
  have h3': "wf_node exTree7" using h3 by (simp add: exTree7_def)
  have h4': "tasksOf (New ''videos'') exTree7 = ([[''a.avi''], [''b.mkv''], [''c.mov'']], None)"
    using h4 by (simp add: exTree7_def)
  show ?thesis
    using h1 g h3' h4' full a b ff c by (simp add: tg)
qed

section \<open>What the removal takes away\<close>

subsection \<open>Cleaned paths\<close>








subsection \<open>Matching\<close>

lemma matchLoop_plain:
  assumes "CHR ''['' \<notin> set chunk" "CHR ''?'' \<notin> set chunk" "backslash \<notin> set chunk"
  shows "matchLoop failed chunk s
           = Inr (if \<not> failed \<and> hasPrefix s chunk then Some (drop (length chunk) s) else None)"
  using assms
proof (induction chunk arbitrary: failed s)
  case Nil
  then show ?case by (subst matchLoop.simps) (simp add: hasPrefix_def)
next
  case (Cons c chunk)
  have c: "c \<noteq> CHR ''[''" "c \<noteq> CHR ''?''" "c \<noteq> backslash" using Cons.prems by auto
  note ih = Cons.IH[OF _ _ _] 
  have r: "CHR ''['' \<notin> set chunk" "CHR ''?'' \<notin> set chunk" "backslash \<notin> set chunk"
    using Cons.prems by auto
  show ?case
  proof (cases "failed \<or> s = []")
    case True
    then have "matchLoop failed (c # chunk) s = matchLoop True chunk s"
      using c by (subst matchLoop.simps) (simp add: Let_def)
    also have "\<dots> = Inr None" using Cons.IH[OF r, of True s] by simp
    finally show ?thesis using True by (auto simp: hasPrefix_def)
  next
    case False
    then obtain d t where s: "s = d # t" by (cases s) auto
    from False have "matchLoop failed (c # chunk) s = matchLoop (c \<noteq> hd s) chunk (tl s)"
      using c by (subst matchLoop.simps) (simp add: Let_def)
    also have "\<dots> = Inr (if \<not> c \<noteq> d \<and> hasPrefix t chunk then Some (drop (length chunk) t) else None)"
      using Cons.IH[OF r, of "c \<noteq> d" t] s by simp
    finally show ?thesis using False s by (auto simp: hasPrefix_def)
  qed
qed

lemma matchChunk_plain:
  assumes "CHR ''['' \<notin> set chunk" "CHR ''?'' \<notin> set chunk" "backslash \<notin> set chunk"
  shows "matchChunk chunk s = Inr (if hasPrefix s chunk then Some (drop (length chunk) s) else None)"
  using matchLoop_plain[OF assms, of False s] by (simp add: matchChunk_def)




lemma scanLoop_append: "scanLoop inrange p = (chunk, rest) \<Longrightarrow> p = chunk @ rest"
  by (induction inrange p arbitrary: chunk rest rule: scanLoop.induct)
     (auto split: if_splits prod.splits)



lemma filepath_Match_unfold:
  assumes "pattern \<noteq> []" "scanChunk pattern = (star, chunk, rest)" "\<not> (star \<and> chunk = [])"
    and "matchChunk chunk name = Inr m"
  shows "filepath_Match pattern name =
           (if m \<noteq> None \<and> (the m = [] \<or> rest \<noteq> []) then filepath_Match rest (the m)
            else if star then
              (case starLoop chunk rest name of
                 Inl e \<Rightarrow> Inl e
               | Inr (Some t) \<Rightarrow> filepath_Match rest t
               | Inr None \<Rightarrow> checkRest rest)
            else checkRest rest)"
proof -
  have "(if star \<and> chunk = [] then a else b) = b" for a b :: "error + bool"
    using assms(3) by (rule if_not_P)
  then show ?thesis using assms(1,2,4) by (subst filepath_Match.simps) simp
qed


lemma scanLoop_plain:
  "CHR ''*'' \<notin> set p \<Longrightarrow> backslash \<notin> set p \<Longrightarrow> scanLoop inrange p = (p, [])"
  by (induction inrange p rule: scanLoop.induct) auto

lemma scanChunk_plain:
  assumes "CHR ''*'' \<notin> set p" "backslash \<notin> set p"
  shows "scanChunk p = (False, p, [])"
proof -
  have "dropWhile (\<lambda>c. c = CHR ''*'') p = p" using assms(1) by (cases p) auto
  moreover have "\<not> (p \<noteq> [] \<and> hd p = CHR ''*'')" using assms(1) by (cases p) auto
  ultimately show ?thesis using scanLoop_plain[OF assms, of False] by (simp add: scanChunk_def)
qed

lemma scanChunk_star:
  assumes "CHR ''*'' \<notin> set p" "backslash \<notin> set p"
  shows "scanChunk (CHR ''*'' # p) = (True, p, [])"
proof -
  have "dropWhile (\<lambda>c. c = CHR ''*'') p = p" using assms(1) by (cases p) auto
  then show ?thesis using scanLoop_plain[OF assms, of False] by (simp add: scanChunk_def)
qed

lemma filepath_Match_Nil: "filepath_Match [] name = Inr (name = [])"
  by (subst filepath_Match.simps) simp

lemma checkRest_Nil: "checkRest [] = Inr False"
  by (subst checkRest.simps) simp

lemma hasPrefix_all: "hasPrefix n lit \<and> drop (length lit) n = [] \<longleftrightarrow> n = lit"
  by (auto simp: hasPrefix_def)

lemma filepath_Match_literal:
  assumes "lit \<noteq> []" "\<not> hasMeta lit"
  shows "filepath_Match lit n = Inr (n = lit)"
proof -
  have p: "CHR ''*'' \<notin> set lit" "CHR ''['' \<notin> set lit" "CHR ''?'' \<notin> set lit" "backslash \<notin> set lit"
    using assms(2) by (auto simp: hasMeta_def list_ex_iff)
  note sc = scanChunk_plain[OF p(1,4)]
  note mc = matchChunk_plain[OF p(2,3,4), of n]
  have ns: "\<not> (False \<and> lit = [])" by simp
  show ?thesis
  proof (cases "n = lit")
    case True
    then have c: "(if hasPrefix n lit then Some (drop (length lit) n) else None) \<noteq> None
        \<and> (the (if hasPrefix n lit then Some (drop (length lit) n) else None) = [] \<or> [] \<noteq> ([]::string))"
      by (simp add: hasPrefix_def)
    show ?thesis
      unfolding filepath_Match_unfold[OF assms(1) sc ns mc] if_P[OF c]
      using True by (simp add: filepath_Match_Nil hasPrefix_def)
  next
    case False
    then have c: "\<not> ((if hasPrefix n lit then Some (drop (length lit) n) else None) \<noteq> None
        \<and> (the (if hasPrefix n lit then Some (drop (length lit) n) else None) = [] \<or> [] \<noteq> ([]::string)))"
      using hasPrefix_all[of n lit] by auto
    show ?thesis
      unfolding filepath_Match_unfold[OF assms(1) sc ns mc] if_not_P[OF c]
      using False by (simp add: checkRest_Nil)
  qed
qed

subsection \<open>The search in the root\<close>




lemma hasMeta_chars:
  "hasMeta s \<longleftrightarrow> CHR ''*'' \<in> set s \<or> CHR ''?'' \<in> set s \<or> CHR ''['' \<in> set s \<or> backslash \<in> set s"
  by (auto simp: hasMeta_def list_ex_iff)





subsection \<open>Removal below a path\<close>








subsection \<open>The loops of \<^verbatim>\<open>Clean\<close>\<close>








subsection \<open>The names that match\<close>

lemma starLoop_plain:
  assumes "CHR ''['' \<notin> set lit" "CHR ''?'' \<notin> set lit" "backslash \<notin> set lit"
  shows "starLoop lit [] n
           = Inr (if \<exists>k. 1 \<le> k \<and> k \<le> length n \<and> sep \<notin> set (take k n) \<and> drop k n = lit
                  then Some [] else None)"
proof (induction n)
  case Nil
  then show ?case by simp
next
  case (Cons c n)
  note mc = matchChunk_plain[OF assms, of n]
  show ?case
  proof (cases "c = sep")
    case True
    have "\<not> (\<exists>k. 1 \<le> k \<and> k \<le> length (c # n) \<and> sep \<notin> set (take k (c # n)) \<and> drop k (c # n) = lit)"
    proof
      assume "\<exists>k. 1 \<le> k \<and> k \<le> length (c # n) \<and> sep \<notin> set (take k (c # n)) \<and> drop k (c # n) = lit"
      then obtain k where "1 \<le> k" "sep \<notin> set (take k (c # n))" by blast
      then show False using True by (cases k) auto
    qed
    then show ?thesis using True by simp
  next
    case False
    show ?thesis
    proof (cases "n = lit")
      case True
      then have "matchChunk lit n = Inr (Some [])" using mc by (simp add: hasPrefix_def)
      moreover have "1 \<le> (1::nat) \<and> 1 \<le> length (c # n) \<and> sep \<notin> set (take 1 (c # n)) \<and> drop 1 (c # n) = lit"
        using True False by simp
      then have "\<exists>k. 1 \<le> k \<and> k \<le> length (c # n) \<and> sep \<notin> set (take k (c # n)) \<and> drop k (c # n) = lit"
        by blast
      ultimately show ?thesis using False by simp
    next
      case nl: False
      have go: "starLoop lit [] (c # n) = starLoop lit [] n"
      proof (cases "hasPrefix n lit")
        case True
        then have "drop (length lit) n \<noteq> []" using nl hasPrefix_all[of n lit] by simp
        then show ?thesis using False True mc by simp
      next
        case np: False
        then show ?thesis using False mc by simp
      qed
      have "(\<exists>k. 1 \<le> k \<and> k \<le> length (c # n) \<and> sep \<notin> set (take k (c # n)) \<and> drop k (c # n) = lit)
          \<longleftrightarrow> (\<exists>k. 1 \<le> k \<and> k \<le> length n \<and> sep \<notin> set (take k n) \<and> drop k n = lit)"
      proof
        assume "\<exists>k. 1 \<le> k \<and> k \<le> length (c # n) \<and> sep \<notin> set (take k (c # n)) \<and> drop k (c # n) = lit"
        then obtain k where k: "1 \<le> k" "k \<le> length (c # n)" "sep \<notin> set (take k (c # n))"
            "drop k (c # n) = lit" by blast
        then obtain j where j: "k = Suc j" by (cases k) auto
        have "j \<noteq> 0"
        proof
          assume "j = 0"
          with k(4) j have "n = lit" by simp
          with nl show False by simp
        qed
        with k j show "\<exists>k. 1 \<le> k \<and> k \<le> length n \<and> sep \<notin> set (take k n) \<and> drop k n = lit"
          by (intro exI[of _ j]) auto
      next
        assume "\<exists>k. 1 \<le> k \<and> k \<le> length n \<and> sep \<notin> set (take k n) \<and> drop k n = lit"
        then obtain k where "1 \<le> k" "k \<le> length n" "sep \<notin> set (take k n)" "drop k n = lit" by blast
        then show "\<exists>k. 1 \<le> k \<and> k \<le> length (c # n) \<and> sep \<notin> set (take k (c # n)) \<and> drop k (c # n) = lit"
          using False by (intro exI[of _ "Suc k"]) auto
      qed
      then show ?thesis using go Cons.IH by simp
    qed
  qed
qed

lemma hasSuffix_drop: "hasSuffix n lit \<longleftrightarrow> (\<exists>k\<le>length n. drop k n = lit)"
proof
  assume "hasSuffix n lit"
  then show "\<exists>k\<le>length n. drop k n = lit"
    by (auto simp: hasSuffix_def intro!: exI[of _ "length n - length lit"])
next
  assume "\<exists>k\<le>length n. drop k n = lit"
  then obtain k where k: "k \<le> length n" "drop k n = lit" by blast
  then have "length lit = length n - k" by auto
  with k show "hasSuffix n lit" by (auto simp: hasSuffix_def)
qed

lemma filepath_Match_star:
  assumes "lit \<noteq> []" "\<not> hasMeta lit" "sep \<notin> set n"
  shows "filepath_Match (CHR ''*'' # lit) n = Inr (hasSuffix n lit)"
proof -
  have p: "CHR ''*'' \<notin> set lit" "CHR ''['' \<notin> set lit" "CHR ''?'' \<notin> set lit" "backslash \<notin> set lit"
    using assms(2) by (auto simp: hasMeta_chars)
  note sc = scanChunk_star[OF p(1,4)]
  note mc = matchChunk_plain[OF p(2,3,4), of n]
  have ne: "CHR ''*'' # lit \<noteq> []" by simp
  have ns: "\<not> (True \<and> lit = [])" using assms(1) by simp
  have sl: "starLoop lit [] n = Inr (if \<exists>k. 1 \<le> k \<and> k \<le> length n \<and> drop k n = lit then Some [] else None)"
  proof -
    have "sep \<notin> set (take k n)" for k using assms(3) by (meson in_set_takeD)
    then show ?thesis using starLoop_plain[OF p(2,3,4), of n] by simp
  qed
  show ?thesis
  proof (cases "n = lit")
    case True
    then have c: "(if hasPrefix n lit then Some (drop (length lit) n) else None) \<noteq> None
        \<and> (the (if hasPrefix n lit then Some (drop (length lit) n) else None) = [] \<or> [] \<noteq> ([]::string))"
      by (simp add: hasPrefix_def)
    have "hasSuffix n lit" using True by (simp add: hasSuffix_def)
    then show ?thesis
      unfolding filepath_Match_unfold[OF ne sc ns mc] if_P[OF c]
      using True by (simp add: filepath_Match_Nil hasPrefix_def)
  next
    case False
    then have c: "\<not> ((if hasPrefix n lit then Some (drop (length lit) n) else None) \<noteq> None
        \<and> (the (if hasPrefix n lit then Some (drop (length lit) n) else None) = [] \<or> [] \<noteq> ([]::string)))"
      using hasPrefix_all[of n lit] by auto
    have "(\<exists>k\<le>length n. drop k n = lit) \<longleftrightarrow> (\<exists>k. 1 \<le> k \<and> k \<le> length n \<and> drop k n = lit)"
    proof
      assume "\<exists>k\<le>length n. drop k n = lit"
      then obtain k where k: "k \<le> length n" "drop k n = lit" by blast
      have "k \<noteq> 0"
      proof
        assume "k = 0"
        with k(2) have "n = lit" by simp
        with False show False by simp
      qed
      with k show "\<exists>k. 1 \<le> k \<and> k \<le> length n \<and> drop k n = lit" by (intro exI[of _ k]) auto
    qed blast
    then show ?thesis
      unfolding filepath_Match_unfold[OF ne sc ns mc] if_not_P[OF c] if_P[OF TrueI] sl hasSuffix_drop
      by (simp add: filepath_Match_Nil checkRest_Nil)
  qed
qed

lemma generatedName_iff:
  assumes "sep \<notin> set n"
  shows "generatedName n \<longleftrightarrow>
           n = ''index.html'' \<or> n = ''style.css'' \<or> hasSuffix n ''_index.html''
           \<or> (hasPrefix n ''player_'' \<and> hasSuffix (drop 7 n) ''.html'')"
proof -
  have a: "filepath_Match ''index.html'' n = Inr (n = ''index.html'')"
    by (rule filepath_Match_literal) (simp_all add: hasMeta_chars backslash_def)
  have b: "filepath_Match ''style.css'' n = Inr (n = ''style.css'')"
    by (rule filepath_Match_literal) (simp_all add: hasMeta_chars backslash_def)
  have c: "filepath_Match ''*_index.html'' n = Inr (hasSuffix n ''_index.html'')"
    by (rule filepath_Match_star[OF _ _ assms]) (simp_all add: hasMeta_chars backslash_def)
  have sd: "sep \<notin> set (drop 7 n)" using assms by (meson in_set_dropD)
  have h: "filepath_Match ''*.html'' (drop 7 n) = Inr (hasSuffix (drop 7 n) ''.html'')"
    by (rule filepath_Match_star[OF _ _ sd]) (simp_all add: hasMeta_chars backslash_def)
  have d: "filepath_Match ''player_*.html'' n
      = Inr (hasPrefix n ''player_'' \<and> hasSuffix (drop 7 n) ''.html'')"
  proof -
    have sc: "scanChunk ''player_*.html'' = (False, ''player_'', ''*.html'')" by code_simp
    have l7: "length ''player_'' = 7" by simp
    have mc: "matchChunk ''player_'' n
        = Inr (if hasPrefix n ''player_'' then Some (drop 7 n) else None)"
      using matchChunk_plain[of "''player_''" n] unfolding l7 by (simp add: backslash_def)
    have ne: "''player_*.html'' \<noteq> []" by simp
    have ns: "\<not> (False \<and> ''player_'' = [])" by simp
    have cr: "checkRest ''*.html'' = Inr False" by code_simp
    show ?thesis
      unfolding filepath_Match_unfold[OF ne sc ns mc]
      using h cr by simp
  qed
  have "generatedName n \<longleftrightarrow> filepath_Match ''index.html'' n = Inr True
      \<or> filepath_Match ''style.css'' n = Inr True \<or> filepath_Match ''*_index.html'' n = Inr True
      \<or> filepath_Match ''player_*.html'' n = Inr True"
    by (simp add: generatedName_def patterns_def)
  then show ?thesis unfolding a b c d by simp
qed

subsection \<open>What \<^verbatim>\<open>Clean\<close> does\<close>


text \<open>
  A root path with a special character of \<^verbatim>\<open>filepath.Glob\<close> in it is a pattern for
  \<^verbatim>\<open>Clean\<close>: for the root \<open>Movies [2020]\<close> the generated files of the directory
  \<open>Movies 2\<close> beside it are removed, and those of the root stay.
\<close>

lemma clean_root_with_bracket:
  "Clean (New ''Movies [2020]'') exFs11
     = ((Dir [(''Movies [2020]'', Dir [(''a.mp4'', File), (''index.html'', File), (''player_a.html'', File)]),
              (''Movies 2'', Dir [(''b.mp4'', File)])], 2), None)"
  by code_simp



end
